theory Spec2Isabelle
  imports Complex_Main "HOL-Library.Word" "HOL-Library.Signed_Division"
begin

section \<open>The delay estimation engine of audio-delay-meter.c\<close>

text \<open>
  Conventions of the embedding.
  \<^item> \<open>uint32_t\<close> is \<open>32 word\<close>; \<open>size_t\<close> is taken to be 64 bits wide and its values are
    read as \<open>nat\<close> where the code cannot wrap them (positions, counts and the capacity
    of the ring buffers are bounded by the capacity, which is at most five times a
    32-bit sample rate).
  \<^item> A conversion \<open>(int)x\<close> of a \<open>size_t\<close> keeps the low 32 bits in two's complement
    (\<open>int_cast\<close>); \<open>/\<close> on \<open>int\<close> truncates towards zero (\<open>sdiv\<close>). An \<open>int\<close> of the lag
    search is an integer between \<open>INT_MIN\<close> and \<open>INT_MAX\<close>; where the C arithmetic on it
    overflows, and where an array is read outside its bounds, the behaviour of the
    program is undefined and the model returns a \<open>fault\<close>.
  \<^item> \<open>float\<close> and \<open>double\<close> arithmetic is idealised as arithmetic on \<open>real\<close>: rounding,
    overflow, infinities and NaN are not modelled. The pre-emphasis coefficient \<open>0.95f\<close>
    and the bound \<open>1e-8\<close> stand for the decimal fractions they are written as; the
    correlation threshold \<open>0.6f\<close>, on which the validity of a measurement turns, has
    the exact value of that binary32 constant.
  \<^item> A C array of \<open>frames\<close> samples is a list of that length.
  \<^item> The mutex and the logging calls have no counterpart: every function is modelled as
    one atomic step on the engine state.
\<close>

subsection \<open>Constants\<close>

type_synonym uint32 = "32 word"
type_synonym uint64 = "64 word"

definition BUFFER_SECONDS :: uint32 where
  "BUFFER_SECONDS = 5"

definition MIN_WINDOW_MS :: uint32 where
  "MIN_WINDOW_MS = 200"

definition MAX_WINDOW_MS :: uint32 where
  "MAX_WINDOW_MS = 3000"

definition DEFAULT_WINDOW_MS :: uint32 where
  "DEFAULT_WINDOW_MS = 1000"

definition MAX_LAG_MS :: uint32 where
  "MAX_LAG_MS = 1500"

text \<open>
  \<^verbatim>\<open>#define MIN_CORR_THRESHOLD 0.6f\<close>: the binary32 number nearest to 0.6, which is
  \<open>10066330 / 2^24\<close>, about 0.6000000238. The test \<^verbatim>\<open>best_corr < MIN_CORR_THRESHOLD\<close>
  compares the \<open>double\<close> correlation with this value.
\<close>

definition MIN_CORR_THRESHOLD :: real where
  "MIN_CORR_THRESHOLD = 5033165 / 8388608"

definition INT_MIN :: int where
  "INT_MIN = - (2 ^ 31)"

definition INT_MAX :: int where
  "INT_MAX = 2 ^ 31 - 1"

text \<open>The two ways in which the lag search leaves the defined behaviour of C.\<close>

datatype fault = Signed_Overflow | Out_Of_Bounds

definition PRE_EMPHASIS_ALPHA :: real where
  "PRE_EMPHASIS_ALPHA = 95 / 100"

subsection \<open>Unit conversion\<close>

text \<open>
  \<^verbatim>\<open>return (size_t)(((uint64_t)ms * sample_rate + 500) / 1000);\<close>
  The arithmetic is done on 64-bit words, where it wraps; the result is read as \<open>nat\<close>.
\<close>

definition ms_to_samples :: "uint32 \<Rightarrow> uint32 \<Rightarrow> nat" where
  "ms_to_samples ms sample_rate =
     unat (((ucast ms :: uint64) * (ucast sample_rate :: uint64) + 500) div 1000)"

text \<open>The conversion \<open>(int)x\<close> of a \<open>size_t\<close> value.\<close>

definition int_cast :: "nat \<Rightarrow> int" where
  "int_cast x = sint (word_of_nat x :: 32 word)"

text \<open>
  \<^verbatim>\<open>int max_lag = (int)ms_to_samples(dm->max_lag_ms, dm->sample_rate);\<close>
  \<^verbatim>\<open>max_lag = max_lag > (int)frames / 2 ? (int)frames / 2 : max_lag;\<close>
\<close>

definition max_lag_samples :: "uint32 \<Rightarrow> uint32 \<Rightarrow> nat \<Rightarrow> int" where
  "max_lag_samples max_lag_ms sample_rate frames =
     (let max_lag = int_cast (ms_to_samples max_lag_ms sample_rate)
      in if max_lag > int_cast frames sdiv 2 then int_cast frames sdiv 2 else max_lag)"

subsection \<open>Ring accumulator\<close>

text \<open>
  \<open>ring_write\<close> stores the samples of \<open>src\<close> one by one at the write position, advances
  the position modulo the capacity and lets the count saturate at the capacity. The
  remainder by a zero capacity is a trap of the C program: \<open>None\<close>.
\<close>

fun ring_write :: "'a list \<Rightarrow> nat \<Rightarrow> nat \<Rightarrow> nat \<Rightarrow> 'a list \<Rightarrow> ('a list \<times> nat \<times> nat) option" where
  "ring_write buffer capacity pos count [] = Some (buffer, pos, count)"
| "ring_write buffer capacity pos count (x # src) =
     (if capacity = 0 then None
      else ring_write (buffer[pos := x]) capacity ((pos + 1) mod capacity)
             (if count < capacity then count + 1 else count) src)"

text \<open>A sequence of calls of \<open>ring_write\<close> on one buffer, one call per chunk of frames.\<close>

fun ring_writes :: "'a list \<Rightarrow> nat \<Rightarrow> nat \<Rightarrow> nat \<Rightarrow> 'a list list \<Rightarrow> ('a list \<times> nat \<times> nat) option" where
  "ring_writes buffer capacity pos count [] = Some (buffer, pos, count)"
| "ring_writes buffer capacity pos count (src # rest) =
     (case ring_write buffer capacity pos count src of
        None \<Rightarrow> None
      | Some (buffer', pos', count') \<Rightarrow> ring_writes buffer' capacity pos' count' rest)"

text \<open>
  The copy loop of \<open>copy_recent\<close>:
  \<^verbatim>\<open>for (i = 0; i < frames; ++i) out[i] = buffer[(start + i) % capacity];\<close>
\<close>

definition copy_loop :: "'a list \<Rightarrow> nat \<Rightarrow> nat \<Rightarrow> nat \<Rightarrow> 'a list" where
  "copy_loop buffer capacity start frames =
     map (\<lambda>i. buffer ! ((start + i) mod capacity)) [0..<frames]"

text \<open>
  The reading of a ring that the specification describes: \<open>count\<close> samples, starting
  from slot \<open>(write_cursor - count) mod capacity\<close>, the difference taken in the integers.
\<close>

definition retrieve :: "'a list \<Rightarrow> nat \<Rightarrow> nat \<Rightarrow> nat \<Rightarrow> 'a list" where
  "retrieve buffer capacity pos count =
     copy_loop buffer capacity (nat ((int pos - int count) mod int capacity)) count"

text \<open>
  What a ring holds after the samples \<open>written\<close> have gone into it since its creation:
  the position and the count follow the number of samples, and the sample of time \<open>t\<close>
  sits in slot \<open>t mod capacity\<close> for each of the last \<open>count\<close> times.
\<close>

definition ring_holds :: "'a list \<Rightarrow> 'a list \<Rightarrow> nat \<Rightarrow> nat \<Rightarrow> nat \<Rightarrow> bool" where
  "ring_holds written buffer cap p c \<longleftrightarrow>
     0 < cap \<and> length buffer = cap \<and> p = length written mod cap \<and>
     c = min (length written) cap \<and>
     (\<forall>t. length written - c \<le> t \<and> t < length written \<longrightarrow> buffer ! (t mod cap) = written ! t)"

subsection \<open>Signal conditioner\<close>

text \<open>
  \<^verbatim>\<open>float prev = data[0];\<close>
  \<^verbatim>\<open>for (i = 1; i < frames; ++i) { float next = data[i]; data[i] = next - ALPHA * prev; prev = next; }\<close>
\<close>

fun pre_emphasis_loop :: "real \<Rightarrow> real list \<Rightarrow> real list" where
  "pre_emphasis_loop prev [] = []"
| "pre_emphasis_loop prev (next # rest) =
     (next - PRE_EMPHASIS_ALPHA * prev) # pre_emphasis_loop next rest"

definition apply_pre_emphasis :: "real list \<Rightarrow> real list" where
  "apply_pre_emphasis data =
     (if length data < 2 then data
      else hd data # pre_emphasis_loop (hd data) (tl data))"

text \<open>
  \<^verbatim>\<open>double w = 0.5 * (1.0 - cos(2.0 * M_PI * (double)i / (frames - 1.0)));\<close>
\<close>

definition hann_weight :: "nat \<Rightarrow> nat \<Rightarrow> real" where
  "hann_weight frames i = 0.5 * (1 - cos (2 * pi * real i / (real frames - 1)))"

fun hann_loop :: "nat \<Rightarrow> nat \<Rightarrow> real list \<Rightarrow> real list" where
  "hann_loop frames i [] = []"
| "hann_loop frames i (x # rest) = (x * hann_weight frames i) # hann_loop frames (Suc i) rest"

definition apply_hann_window :: "real list \<Rightarrow> real list" where
  "apply_hann_window data =
     (if length data \<le> 1 then data else hann_loop (length data) 0 data)"

subsection \<open>Engine state and its host\<close>

datatype obs_source = Source string

text \<open>
  The texts that \<open>snprintf\<close> builds are kept as the format together with its arguments:
  \<open>Delay_Text d c\<close> is \<^verbatim>\<open>"%+6.1f ms (correlation: %.3f)"\<close>,
  \<open>Lags_Note n d\<close> is \<^verbatim>\<open>"Target '%s' lags reference by %.1f ms"\<close>,
  \<open>Leads_Note n d\<close> is \<^verbatim>\<open>"Target '%s' leads reference by %.1f ms"\<close> and
  \<open>Aligned_Note n\<close> is \<^verbatim>\<open>"Target '%s' is aligned with reference"\<close>.
\<close>

datatype message =
    Text string
  | Delay_Text real real
  | Lags_Note string real
  | Leads_Note string real
  | Aligned_Note string

record delay_meter_data =
  target :: "obs_source option"
  target_name :: "string option"
  ref_buffer :: "real list"
  tgt_buffer :: "real list"
  capacity :: nat
  ref_pos :: nat
  tgt_pos :: nat
  ref_count :: nat
  tgt_count :: nat
  sample_rate :: uint32
  window_ms :: uint32
  max_lag_ms :: uint32
  debug_enabled :: bool
  last_delay_text :: "message option"
  last_time_text :: "string option"
  last_notes :: "message option"
  last_delay_ms :: real
  last_correlation :: real
  ui_update_pending :: bool
  last_delay_valid :: bool

text \<open>
  What the engine asks of its host: the wall clock as \<open>strftime\<close> prints it, whether
  \<open>bmalloc\<close> of a number of bytes returns a block, the lookup of a source by name and
  the sample rate of the audio output.
\<close>

record host =
  clock :: string
  bmalloc :: "nat \<Rightarrow> bool"
  obs_get_source_by_name :: "string \<Rightarrow> obs_source option"
  audio_output_get_sample_rate :: uint32

record obs_data =
  obs_data_get_int :: "string \<Rightarrow> int"
  obs_data_get_bool :: "string \<Rightarrow> bool"
  obs_data_get_string :: "string \<Rightarrow> string"

subsection \<open>Snapshot\<close>

text \<open>
  \<open>copy_recent\<close> fails when fewer than 1024 frames are available or an allocation
  fails; otherwise it copies the most recent frames of both rings, conditions both
  copies in place (pre-emphasis, then the Hann window) and hands them out.
  \<open>sizeof(float)\<close> is 4.
\<close>

definition copy_recent :: "host \<Rightarrow> delay_meter_data \<Rightarrow> (real list \<times> real list \<times> nat) option" where
  "copy_recent h dm =
     (let available = (if ref_count dm < tgt_count dm then ref_count dm else tgt_count dm);
          window_frames = ms_to_samples (window_ms dm) (sample_rate dm);
          frames = (if available < window_frames then available else window_frames)
      in if frames < 1024 then None
         else if \<not> bmalloc h (frames * 4) then None
         else
           let ref_start = (ref_pos dm + capacity dm - frames) mod capacity dm;
               tgt_start = (tgt_pos dm + capacity dm - frames) mod capacity dm;
               ref = copy_loop (ref_buffer dm) (capacity dm) ref_start frames;
               tgt = copy_loop (tgt_buffer dm) (capacity dm) tgt_start frames
           in Some (apply_hann_window (apply_pre_emphasis ref),
                    apply_hann_window (apply_pre_emphasis tgt), frames))"

subsection \<open>Correlation engine\<close>

text \<open>
  The sums of one iteration of the lag loop, over \<open>overlap\<close> samples:
  \<^verbatim>\<open>double da = ref[start_a + i] - ref_mean; double db = tgt[start_b + i] - tgt_mean;\<close>
  \<^verbatim>\<open>sum_ab += da * db; sum_a2 += da * da; sum_b2 += db * db;\<close>
\<close>

definition lag_sums :: "real list \<Rightarrow> real list \<Rightarrow> real \<Rightarrow> real \<Rightarrow> nat \<Rightarrow> nat \<Rightarrow> nat
    \<Rightarrow> real \<times> real \<times> real" where
  "lag_sums ref tgt ref_mean tgt_mean start_a start_b overlap =
     (\<Sum>i\<leftarrow>[0..<overlap]. (ref ! (start_a + i) - ref_mean) * (tgt ! (start_b + i) - tgt_mean),
      \<Sum>i\<leftarrow>[0..<overlap]. (ref ! (start_a + i) - ref_mean) * (ref ! (start_a + i) - ref_mean),
      \<Sum>i\<leftarrow>[0..<overlap]. (tgt ! (start_b + i) - tgt_mean) * (tgt ! (start_b + i) - tgt_mean))"

text \<open>
  The variables of one iteration of the lag loop. \<open>overlap = frames - abs_lag\<close> is a
  \<open>size_t\<close> and wraps modulo \<open>2^64\<close> when \<open>abs_lag\<close> exceeds \<open>frames\<close>.
\<close>

definition overlap :: "nat \<Rightarrow> int \<Rightarrow> nat" where
  "overlap frames lag = nat ((int frames - int (nat \<bar>lag\<bar>)) mod 2 ^ 64)"

definition start_a :: "int \<Rightarrow> nat" where
  "start_a lag = (if lag \<ge> 0 then 0 else nat \<bar>lag\<bar>)"

definition start_b :: "int \<Rightarrow> nat" where
  "start_b lag = (if lag \<ge> 0 then nat \<bar>lag\<bar> else 0)"

text \<open>
  One iteration of the lag loop up to the division. \<open>abs(lag)\<close> overflows for
  \<open>INT_MIN\<close>; the sums read \<open>ref[start_a .. start_a + overlap)\<close> and
  \<open>tgt[start_b .. start_b + overlap)\<close>. \<open>Inr None\<close> is either \<open>continue\<close>, and the quotient
  is formed only on the path that passed both guards.
\<close>

definition lag_corr :: "real list \<Rightarrow> real list \<Rightarrow> nat \<Rightarrow> real \<Rightarrow> real \<Rightarrow> int
    \<Rightarrow> fault + real option" where
  "lag_corr ref tgt frames ref_mean tgt_mean lag =
     (if lag = INT_MIN then Inl Signed_Overflow
      else if overlap frames lag < 1024 then Inr None
      else if length ref < start_a lag + overlap frames lag
              \<or> length tgt < start_b lag + overlap frames lag
      then Inl Out_Of_Bounds
      else
        case lag_sums ref tgt ref_mean tgt_mean (start_a lag) (start_b lag)
               (overlap frames lag) of
          (sum_ab, sum_a2, sum_b2) \<Rightarrow>
            let denom = sqrt (sum_a2 * sum_b2)
            in if denom < 1 / 10 ^ 8 then Inr None else Inr (Some (sum_ab / denom)))"

text \<open>
  The rest of the iteration: count the lag and keep it if it is strictly better. After a
  fault nothing is defined any more.
\<close>

fun lag_step :: "(int \<Rightarrow> fault + real option) \<Rightarrow> fault + real \<times> int \<times> nat \<Rightarrow> int
    \<Rightarrow> fault + real \<times> int \<times> nat" where
  "lag_step corr_at (Inl e) lag = Inl e"
| "lag_step corr_at (Inr (best_corr, best_lag, lag_count)) lag =
     (case corr_at lag of
        Inl e \<Rightarrow> Inl e
      | Inr None \<Rightarrow> Inr (best_corr, best_lag, lag_count)
      | Inr (Some corr) \<Rightarrow>
          if corr > best_corr then Inr (corr, lag, lag_count + 1)
          else Inr (best_corr, best_lag, lag_count + 1))"

text \<open>
  The search of \<open>estimate_delay\<close>: the means over the \<open>frames\<close> samples of both arrays, then
  the lags from \<open>-max_lag\<close> to \<open>max_lag\<close>, starting from \<open>best_corr = -1.0\<close>, \<open>best_lag = 0\<close>.
  \<^verbatim>\<open>for (int lag = -max_lag; lag <= max_lag; ++lag)\<close> overflows in \<open>-max_lag\<close> when
  \<open>max_lag\<close> is \<open>INT_MIN\<close>, and in the last \<open>++lag\<close> when \<open>max_lag\<close> is \<open>INT_MAX\<close>. (Where
  the negation wraps to \<open>INT_MIN\<close> the loop body runs with \<open>lag = INT_MIN\<close>, \<open>abs_lag\<close> is
  negative, \<open>overlap\<close> wraps to \<open>frames + 2^31\<close> and the sums read outside both arrays:
  a fault in either reading.)
\<close>

definition snapshot_mean :: "nat \<Rightarrow> real list \<Rightarrow> real" where
  "snapshot_mean frames xs = sum_list (take frames xs) / real frames"

definition snapshot_corr :: "real list \<Rightarrow> real list \<Rightarrow> nat \<Rightarrow> int \<Rightarrow> fault + real option" where
  "snapshot_corr ref tgt frames =
     lag_corr ref tgt frames (snapshot_mean frames ref) (snapshot_mean frames tgt)"

definition find_best_lag :: "real list \<Rightarrow> real list \<Rightarrow> nat \<Rightarrow> int
    \<Rightarrow> fault + real \<times> int \<times> nat" where
  "find_best_lag ref tgt frames max_lag =
     (if length ref < frames \<or> length tgt < frames then Inl Out_Of_Bounds
      else if max_lag = INT_MIN then Inl Signed_Overflow
      else
        case foldl (lag_step (snapshot_corr ref tgt frames)) (Inr (- 1, 0, 0))
               [- max_lag..max_lag] of
          Inl e \<Rightarrow> Inl e
        | Inr best \<Rightarrow> if max_lag = INT_MAX then Inl Signed_Overflow else Inr best)"

text \<open>
  \<open>estimate_delay\<close> after the snapshot (lines 185 to 256): the clamp of the lag bound, the
  search, the test against the threshold and the conversion of the best lag to
  milliseconds. \<open>Inr None\<close> is \<open>return false\<close>.
\<close>

definition estimate_from_snapshot :: "uint32 \<Rightarrow> uint32 \<Rightarrow> real list \<Rightarrow> real list \<Rightarrow> nat
    \<Rightarrow> fault + (real \<times> real) option" where
  "estimate_from_snapshot lag_ms rate ref tgt frames =
     (case find_best_lag ref tgt frames (max_lag_samples lag_ms rate frames) of
        Inl e \<Rightarrow> Inl e
      | Inr (best_corr, best_lag, lag_count) \<Rightarrow>
          if best_corr < MIN_CORR_THRESHOLD then Inr None
          else Inr (Some (real_of_int best_lag * 1000 / real (unat rate), best_corr)))"

definition estimate_delay :: "host \<Rightarrow> delay_meter_data \<Rightarrow> fault + (real \<times> real) option" where
  "estimate_delay h dm =
     (case copy_recent h dm of
        None \<Rightarrow> Inr None
      | Some (ref, tgt, frames) \<Rightarrow>
          estimate_from_snapshot (max_lag_ms dm) (sample_rate dm) ref tgt frames)"

subsection \<open>Measurement orchestrator\<close>

text \<open>
  \<open>set_result\<close> replaces the three texts, sets \<open>last_delay_valid\<close> and marks a user
  interface update as pending (the task it queues when none was pending runs in the host).
\<close>

definition set_result :: "host \<Rightarrow> message \<Rightarrow> message \<Rightarrow> delay_meter_data \<Rightarrow> delay_meter_data" where
  "set_result h delay_text notes_text dm =
     dm\<lparr>last_delay_text := Some delay_text,
        last_time_text := Some (clock h),
        last_notes := Some notes_text,
        last_delay_valid := True,
        ui_update_pending := True\<rparr>"

definition direction_note :: "string option \<Rightarrow> real \<Rightarrow> message" where
  "direction_note target_name_copy delay_ms =
     (let name = (case target_name_copy of Some n \<Rightarrow> n | None \<Rightarrow> ''<target>'')
      in if delay_ms > 0 then Lags_Note name delay_ms
         else if delay_ms < 0 then Leads_Note name \<bar>delay_ms\<bar>
         else Aligned_Note name)"

text \<open>
  \<open>perform_measure\<close> returns the new state and its \<open>bool\<close>, or the fault of the lag search.
\<close>

definition perform_measure :: "host \<Rightarrow> delay_meter_data \<Rightarrow> fault + delay_meter_data \<times> bool" where
  "perform_measure h dm =
     (if target dm = None then
        Inr ((set_result h (Text ''No target source'')
                (Text ''Select a delayed source to compare against.'') dm)
               \<lparr>last_delay_valid := False\<rparr>, False)
      else if \<not> (ref_count dm \<ge> 1024 \<and> tgt_count dm \<ge> 1024) then
        Inr ((set_result h (Text ''Buffers too small'')
                (Text ''Need more buffered audio from both reference and target before measuring.'') dm)
               \<lparr>last_delay_valid := False\<rparr>, False)
      else
        (case estimate_delay h dm of
           Inl e \<Rightarrow> Inl e
         | Inr (Some (delay_ms, corr)) \<Rightarrow>
             Inr ((set_result h (Delay_Text delay_ms corr)
                     (direction_note (target_name dm) delay_ms) dm)
                    \<lparr>last_delay_ms := delay_ms, last_delay_valid := True\<rparr>, True)
         | Inr None \<Rightarrow>
             Inr ((set_result h (Text ''Insufficient correlation - check audio levels and similarity'')
                     (Text ''Insufficient correlation; ensure both sources carry similar program audio.'') dm)
                    \<lparr>last_delay_valid := False\<rparr>, False)))"

subsection \<open>Configuration\<close>

text \<open>
  \<open>connect_target\<close> keeps the binding when the same name is bound already; otherwise it
  releases the old target, stores the name (none for a null or empty one) and binds the
  source of that name if the host has one.
\<close>

definition connect_target :: "host \<Rightarrow> string option \<Rightarrow> delay_meter_data \<Rightarrow> delay_meter_data" where
  "connect_target h name dm =
     (if target dm \<noteq> None \<and> target_name dm \<noteq> None \<and> name \<noteq> None \<and> target_name dm = name
      then dm
      else
        let released = dm\<lparr>target := None\<rparr>;
            named = released\<lparr>target_name :=
                      (case name of None \<Rightarrow> None | Some n \<Rightarrow> if n \<noteq> [] then Some n else None)\<rparr>
        in case target_name named of
             None \<Rightarrow> named
           | Some n \<Rightarrow>
               (case obs_get_source_by_name h n of
                  None \<Rightarrow> named
                | Some src \<Rightarrow> named\<lparr>target := Some src\<rparr>))"

text \<open>
  \<open>delay_meter_update\<close> stores the settings as they are; \<open>(uint32_t)\<close> keeps the low
  32 bits of the 64-bit setting.
\<close>

definition delay_meter_update :: "host \<Rightarrow> obs_data \<Rightarrow> delay_meter_data \<Rightarrow> delay_meter_data" where
  "delay_meter_update h settings dm =
     connect_target h (Some (obs_data_get_string settings ''target_source''))
       (dm\<lparr>window_ms := word_of_int (obs_data_get_int settings ''window_ms''),
           max_lag_ms := word_of_int (obs_data_get_int settings ''max_lag_ms''),
           debug_enabled := obs_data_get_bool settings ''debug_enabled''\<rparr>)"

text \<open>
  \<open>delay_meter_create\<close> takes the sample rate from the host, allocates both rings zeroed
  with room for \<open>BUFFER_SECONDS\<close> of audio, leaves positions and counts at 0, reads the
  settings as \<open>delay_meter_update\<close> does and binds the target. The texts it puts into the
  settings object of the host are not part of the engine state.
\<close>

definition delay_meter_create :: "host \<Rightarrow> obs_data \<Rightarrow> delay_meter_data" where
  "delay_meter_create h settings =
     (let rate = audio_output_get_sample_rate h;
          cap = ms_to_samples (BUFFER_SECONDS * 1000) rate
      in connect_target h (Some (obs_data_get_string settings ''target_source''))
           \<lparr>target = None, target_name = None,
            ref_buffer = replicate cap 0, tgt_buffer = replicate cap 0,
            capacity = cap, ref_pos = 0, tgt_pos = 0, ref_count = 0, tgt_count = 0,
            sample_rate = rate,
            window_ms = word_of_int (obs_data_get_int settings ''window_ms''),
            max_lag_ms = word_of_int (obs_data_get_int settings ''max_lag_ms''),
            debug_enabled = obs_data_get_bool settings ''debug_enabled'',
            last_delay_text = None, last_time_text = None, last_notes = None,
            last_delay_ms = 0, last_correlation = 0,
            ui_update_pending = False, last_delay_valid = False\<rparr>)"

subsection \<open>Sample states and signals\<close>

text \<open>
  A host whose allocations succeed and that knows one source, and a meter at 48 kHz
  (capacity \<open>5 * 48000\<close>) bound to that source, both rings holding 2048 samples of silence.
\<close>

definition studio :: host where
  "studio = \<lparr>clock = ''12:00:00'', bmalloc = (\<lambda>bytes. True),
     obs_get_source_by_name = (\<lambda>name. if name = ''Mic'' then Some (Source ''Mic'') else None),
     audio_output_get_sample_rate = 48000\<rparr>"

definition silent_meter :: delay_meter_data where
  "silent_meter =
     \<lparr>target = Some (Source ''Mic''), target_name = Some ''Mic'',
      ref_buffer = replicate 240000 0, tgt_buffer = replicate 240000 0,
      capacity = 240000, ref_pos = 2048, tgt_pos = 2048, ref_count = 2048, tgt_count = 2048,
      sample_rate = 48000, window_ms = 1000, max_lag_ms = 500, debug_enabled = False,
      last_delay_text = None, last_time_text = None, last_notes = None,
      last_delay_ms = 0, last_correlation = 0,
      ui_update_pending = False, last_delay_valid = False\<rparr>"

text \<open>The same meter after 2049 samples of value 1 have gone into both fresh rings.\<close>

definition ones_meter :: delay_meter_data where
  "ones_meter =
     silent_meter\<lparr>ref_buffer := replicate 2049 1 @ replicate 237951 0,
                  tgt_buffer := replicate 2049 1 @ replicate 237951 0,
                  ref_pos := 2049, tgt_pos := 2049, ref_count := 2049, tgt_count := 2049\<rparr>"

text \<open>Settings outside the ranges of the property sliders.\<close>

definition wide_settings :: obs_data where
  "wide_settings =
     \<lparr>obs_data_get_int =
        (\<lambda>key. if key = ''window_ms'' then 5000 else if key = ''max_lag_ms'' then 10 else 0),
      obs_data_get_bool = (\<lambda>key. False),
      obs_data_get_string = (\<lambda>key. if key = ''target_source'' then ''Mic'' else [])\<rparr>"

text \<open>The defaults that \<open>delay_meter_defaults\<close> registers for the settings.\<close>

definition default_settings :: obs_data where
  "default_settings =
     \<lparr>obs_data_get_int =
        (\<lambda>key. if key = ''window_ms'' then uint DEFAULT_WINDOW_MS
               else if key = ''max_lag_ms'' then 500 else 0),
      obs_data_get_bool = (\<lambda>key. False),
      obs_data_get_string = (\<lambda>key. [])\<rparr>"

text \<open>
  Two snapshots of 1030 samples, silent except for a pulse \<open>1, -1\<close> at samples 10 and 11
  of the reference and the samples \<open>1\<close> at 9 and \<open>-1\<close> at 11 of the target.
\<close>

definition pulse_ref :: "real list" where
  "pulse_ref = (replicate 1030 0)[10 := 1, 11 := - 1]"

definition pulse_tgt :: "real list" where
  "pulse_tgt = (replicate 1030 0)[9 := 1, 11 := - 1]"

text \<open>
  Two snapshots of 1024 samples: the reference silent except for \<open>1, -1\<close> at samples 10
  and 11, the target silent except for \<open>4, -4, 3, -3\<close> at samples 8 to 11.
\<close>

definition gap_ref :: "real list" where
  "gap_ref = (replicate 1024 0)[10 := 1, 11 := - 1]"

definition gap_tgt :: "real list" where
  "gap_tgt = (replicate 1024 0)[8 := 4, 9 := - 4, 10 := 3, 11 := - 3]"

text \<open>
  The silent meter with a maximal lag of \<open>2^27\<close> ms, which at 48 kHz is
  \<open>3 * 2^31\<close> samples and \<open>INT_MIN\<close> as an \<open>int\<close>.
\<close>

definition overflow_meter :: delay_meter_data where
  "overflow_meter = silent_meter\<lparr>max_lag_ms := 134217728\<rparr>"

section \<open>Unit conversion and the clamp of the search range\<close>

lemma ms_to_samples_nat:
  "ms_to_samples ms rate = (unat ms * unat rate + 500) div 1000"
proof -
  have a: "unat ms < 2 ^ 32" and b: "unat rate < 2 ^ 32"
    using unsigned_less [of ms] unsigned_less [of rate] by simp_all
  have "unat ms * unat rate \<le> (2 ^ 32 - 1) * (2 ^ 32 - 1)"
    using a b by (intro mult_le_mono) simp_all
  then have c: "unat ms * unat rate + 500 < 2 ^ 64"
    by simp
  have u1: "unat (ucast ms :: uint64) = unat ms"
    using a by (simp add: unsigned_ucast_eq take_bit_nat_eq_self)
  have u2: "unat (ucast rate :: uint64) = unat rate"
    using b by (simp add: unsigned_ucast_eq take_bit_nat_eq_self)
  have "unat ((ucast ms :: uint64) * (ucast rate :: uint64) + 500)
          = unat ms * unat rate + 500"
    using c by (simp add: unat_word_ariths u1 u2)
  then show ?thesis
    by (simp add: ms_to_samples_def unat_div)
qed

lemma int_cast_eq: "int_cast x = signed_take_bit 31 (int x)"
  by (simp add: int_cast_def signed_of_nat)

lemma int_cast_le: "int_cast x \<le> int x"
  by (simp add: int_cast_eq signed_take_bit_int_less_eq_self_iff)

lemma half_le: "int_cast x sdiv 2 \<le> int (x div 2)"
proof (cases "0 \<le> int_cast x")
  case True
  then have "int_cast x sdiv 2 = int_cast x div 2"
    by (simp add: signed_divide_int_def sgn_if)
  also have "\<dots> \<le> int x div 2"
    using int_cast_le [of x] by (simp add: zdiv_mono1)
  finally show ?thesis by (simp add: zdiv_int)
next
  case False
  then have "int_cast x sdiv 2 = - (- int_cast x div 2)"
    by (simp add: signed_divide_int_def sgn_if)
  also have "\<dots> \<le> 0"
    using False by simp
  finally show ?thesis by simp
qed

lemma max_lag_samples_le: "max_lag_samples ms rate frames \<le> int (frames div 2)"
  using half_le [of frames] by (simp add: max_lag_samples_def Let_def)

lemma round_half_up:
  "int ((n + 500) div 1000) = \<lfloor>real n / 1000 + 1 / 2\<rfloor>"
proof -
  have "real n / 1000 + 1 / 2 = real (n + 500) / real 1000"
    by (simp add: field_simps)
  then show ?thesis
    by (simp only: floor_divide_of_nat_eq)
qed

lemma int_cast_half:
  assumes "frames < 2 ^ 31"
  shows "int_cast frames sdiv 2 = int (frames div 2)"
proof -
  have "int frames < 2 ^ 31"
    using assms by (metis of_nat_less_iff of_nat_numeral of_nat_power)
  then have "int_cast frames = int frames"
    by (simp add: int_cast_eq signed_take_bit_int_eq_self)
  then show ?thesis
    by (simp add: signed_divide_int_def sgn_if zdiv_int)
qed

text \<open>
  C7. For every milliseconds value and sample rate, \<open>ms_to_samples\<close> is
  \<open>(ms * rate + 500) / 1000\<close> with truncating division and without wrap-around in the
  64-bit arithmetic, which is \<open>ms * rate / 1000\<close> rounded half up; and the lag bound that
  \<open>estimate_delay\<close> derives from it is at most \<open>frames / 2\<close>, whatever the configured
  maximum lag is: for a snapshot of fewer than \<open>2^31\<close> frames it is the smaller of the
  converted lag, as an \<open>int\<close>, and \<open>frames / 2\<close>.
\<close>

theorem ms_to_samples_round_half_up_and_clamp:
  "ms_to_samples ms rate = (unat ms * unat rate + 500) div 1000
   \<and> int (ms_to_samples ms rate) = \<lfloor>real (unat ms * unat rate) / 1000 + 1 / 2\<rfloor>
   \<and> max_lag_samples ms rate frames \<le> int (frames div 2)
   \<and> (frames < 2 ^ 31 \<longrightarrow>
        max_lag_samples ms rate frames
          = min (int_cast (ms_to_samples ms rate)) (int (frames div 2)))"
proof (intro conjI impI)
  show "ms_to_samples ms rate = (unat ms * unat rate + 500) div 1000"
    by (rule ms_to_samples_nat)
  show "int (ms_to_samples ms rate) = \<lfloor>real (unat ms * unat rate) / 1000 + 1 / 2\<rfloor>"
    by (simp only: ms_to_samples_nat round_half_up)
  show "max_lag_samples ms rate frames \<le> int (frames div 2)"
    by (rule max_lag_samples_le)
  assume "frames < 2 ^ 31"
  then show "max_lag_samples ms rate frames
               = min (int_cast (ms_to_samples ms rate)) (int (frames div 2))"
    by (simp add: max_lag_samples_def Let_def int_cast_half min_def)
qed

theorem ms_to_samples_round_half_up_and_clamp_witness:
  "ms_to_samples 1500 48000 = 72000
   \<and> ms_to_samples 1 1500 = 2
   \<and> (2048::nat) < 2 ^ 31
   \<and> max_lag_samples 1500 48000 2048 = 1024"
  using ms_to_samples_round_half_up_and_clamp [of 1500 48000 2048]
    ms_to_samples_round_half_up_and_clamp [of 1 1500 0]
  by (simp add: int_cast_def)

section \<open>Ring accumulator\<close>

lemma ring_holds_empty: "0 < cap \<Longrightarrow> length buffer = cap \<Longrightarrow> ring_holds [] buffer cap 0 0"
  by (simp add: ring_holds_def)

lemma mod_neq_of_close:
  fixes t n cap :: nat
  assumes "t < n" "n - t < cap"
  shows "t mod cap \<noteq> n mod cap"
proof
  assume eq: "t mod cap = n mod cap"
  have "(n - t) mod cap = 0"
    using assms(1) eq by (metis less_imp_le_nat mod_eq_dvd_iff_nat dvd_imp_mod_0)
  then have "cap dvd (n - t)" by auto
  then have "cap \<le> n - t" using assms(1) by (auto intro: dvd_imp_le)
  with assms(2) show False by simp
qed

lemma ring_holds_step:
  assumes "ring_holds written buffer cap p c"
  shows "ring_holds (written @ [x]) (buffer[p := x]) cap ((p + 1) mod cap)
           (if c < cap then c + 1 else c)"
proof -
  let ?n = "length written"
  let ?c' = "if c < cap then c + 1 else c"
  from assms have cap: "0 < cap" and len: "length buffer = cap" and p: "p = ?n mod cap"
    and c: "c = min ?n cap"
    and old: "\<And>t. ?n - c \<le> t \<Longrightarrow> t < ?n \<Longrightarrow> buffer ! (t mod cap) = written ! t"
    by (auto simp: ring_holds_def)
  have c': "?c' = min (Suc ?n) cap" using c by auto
  have pos: "(p + 1) mod cap = Suc ?n mod cap"
    using p by (simp add: mod_Suc_eq)
  have cells: "(buffer[p := x]) ! (t mod cap) = (written @ [x]) ! t"
    if "Suc ?n - ?c' \<le> t" "t < Suc ?n" for t
  proof (cases "t = ?n")
    case True
    then show ?thesis using p len cap by simp
  next
    case False
    with that have lt: "t < ?n" by simp
    have "?n - t < cap" using that(1) c' cap by (auto simp: min_def split: if_splits)
    then have "t mod cap \<noteq> p" using mod_neq_of_close [OF lt] p by simp
    moreover have "?n - c \<le> t" using that(1) c by (auto simp: min_def split: if_splits)
    ultimately show ?thesis using old [of t] lt by (simp add: nth_append)
  qed
  show ?thesis
    unfolding ring_holds_def
    using cap len pos c' cells by simp
qed

lemma ring_write_holds:
  assumes "ring_holds written buffer cap p c"
  shows "\<exists>buffer' p' c'. ring_write buffer cap p c src = Some (buffer', p', c') \<and>
           ring_holds (written @ src) buffer' cap p' c'"
  using assms
proof (induction src arbitrary: written buffer p c)
  case Nil
  then show ?case by simp
next
  case (Cons x src)
  have cap: "0 < cap" using Cons.prems by (simp add: ring_holds_def)
  from Cons.IH [OF ring_holds_step [OF Cons.prems, of x]]
  show ?case using cap by simp
qed

lemma ring_writes_holds:
  assumes "ring_holds written buffer cap p c"
  shows "\<exists>buffer' p' c'. ring_writes buffer cap p c writes = Some (buffer', p', c') \<and>
           ring_holds (written @ concat writes) buffer' cap p' c'"
  using assms
proof (induction writes arbitrary: written buffer p c)
  case Nil
  then show ?case by simp
next
  case (Cons src writes)
  from ring_write_holds [OF Cons.prems, of src] obtain b1 p1 c1
    where w: "ring_write buffer cap p c src = Some (b1, p1, c1)"
      and h: "ring_holds (written @ src) b1 cap p1 c1" by blast
  from Cons.IH [OF h] show ?case using w by simp
qed

lemma copy_loop_recent:
  assumes "ring_holds written buffer cap p c" and "frames \<le> c"
    and "start mod cap = (length written - frames) mod cap"
  shows "copy_loop buffer cap start frames = drop (length written - frames) written"
proof (rule nth_equalityI)
  from assms have c: "c = min (length written) cap" by (simp add: ring_holds_def)
  then have fl: "frames \<le> length written" using assms(2) by simp
  show "length (copy_loop buffer cap start frames) = length (drop (length written - frames) written)"
    using fl by (simp add: copy_loop_def)
  fix i assume "i < length (copy_loop buffer cap start frames)"
  then have i: "i < frames" by (simp add: copy_loop_def)
  let ?t = "length written - frames + i"
  have "(start + i) mod cap = ?t mod cap"
    using assms(3) by (metis mod_add_left_eq)
  moreover have "length written - c \<le> ?t" "?t < length written"
    using assms(2) i fl by simp_all
  then have "buffer ! (?t mod cap) = written ! ?t"
    using assms(1) unfolding ring_holds_def by blast
  ultimately show "copy_loop buffer cap start frames ! i = drop (length written - frames) written ! i"
    using i fl by (simp add: copy_loop_def)
qed

lemma start_code:
  assumes "ring_holds written buffer cap p c" and "frames \<le> c"
  shows "((p + cap - frames) mod cap) mod cap = (length written - frames) mod cap"
proof -
  from assms have cap: "0 < cap" and p: "p = length written mod cap"
    and c: "c = min (length written) cap" by (simp_all add: ring_holds_def)
  have f: "frames \<le> length written" "frames \<le> cap" using c assms(2) by simp_all
  have "int ((p + cap - frames) mod cap) = (int p + int cap - int frames) mod int cap"
    using f by (simp add: zmod_int of_nat_diff)
  also have "\<dots> = (int p - int frames + int cap) mod int cap"
    by (simp add: algebra_simps)
  also have "\<dots> = (int p - int frames) mod int cap"
    by (simp only: mod_add_self2)
  also have "\<dots> = (int (length written) - int frames) mod int cap"
    using p by (simp add: zmod_int mod_diff_left_eq)
  also have "\<dots> = int ((length written - frames) mod cap)"
    using f by (simp add: zmod_int of_nat_diff)
  finally show ?thesis by simp
qed

lemma start_spec:
  assumes "ring_holds written buffer cap p c"
  shows "nat ((int p - int c) mod int cap) mod cap = (length written - c) mod cap"
proof -
  from assms have cap: "0 < cap" and p: "p = length written mod cap"
    and c: "c = min (length written) cap" by (simp_all add: ring_holds_def)
  have f: "c \<le> length written" using c by simp
  have "(int p - int c) mod int cap = (int (length written) - int c) mod int cap"
    using p by (simp add: zmod_int mod_diff_left_eq)
  also have "\<dots> = int ((length written - c) mod cap)"
    using f by (simp add: zmod_int of_nat_diff)
  finally show ?thesis by simp
qed


lemma connect_target_rings:
  "ref_buffer (connect_target h name dm) = ref_buffer dm"
  "tgt_buffer (connect_target h name dm) = tgt_buffer dm"
  "capacity (connect_target h name dm) = capacity dm"
  "ref_pos (connect_target h name dm) = ref_pos dm"
  "tgt_pos (connect_target h name dm) = tgt_pos dm"
  "ref_count (connect_target h name dm) = ref_count dm"
  "tgt_count (connect_target h name dm) = tgt_count dm"
  by (simp_all add: connect_target_def Let_def split: option.splits)

lemma created_rings_empty:
  assumes "audio_output_get_sample_rate h \<noteq> 0"
  shows "capacity (delay_meter_create h settings) = 5 * unat (audio_output_get_sample_rate h)"
    and "ring_holds [] (ref_buffer (delay_meter_create h settings))
           (capacity (delay_meter_create h settings))
           (ref_pos (delay_meter_create h settings)) (ref_count (delay_meter_create h settings))"
    and "ring_holds [] (tgt_buffer (delay_meter_create h settings))
           (capacity (delay_meter_create h settings))
           (tgt_pos (delay_meter_create h settings)) (tgt_count (delay_meter_create h settings))"
proof -
  have cap: "ms_to_samples (BUFFER_SECONDS * 1000) (audio_output_get_sample_rate h)
               = 5 * unat (audio_output_get_sample_rate h)"
    by (simp add: ms_to_samples_nat BUFFER_SECONDS_def)
  have pos: "0 < unat (audio_output_get_sample_rate h)"
    using assms by (simp add: unat_gt_0)
  show "capacity (delay_meter_create h settings) = 5 * unat (audio_output_get_sample_rate h)"
    by (simp add: delay_meter_create_def Let_def connect_target_rings cap)
  show "ring_holds [] (ref_buffer (delay_meter_create h settings))
           (capacity (delay_meter_create h settings))
           (ref_pos (delay_meter_create h settings)) (ref_count (delay_meter_create h settings))"
    using pos by (simp add: delay_meter_create_def Let_def connect_target_rings cap ring_holds_def)
  show "ring_holds [] (tgt_buffer (delay_meter_create h settings))
           (capacity (delay_meter_create h settings))
           (tgt_pos (delay_meter_create h settings)) (tgt_count (delay_meter_create h settings))"
    using pos by (simp add: delay_meter_create_def Let_def connect_target_rings cap ring_holds_def)
qed

text \<open>
  C2. A ring of positive capacity that starts empty (position and count 0, as
  \<open>delay_meter_create\<close> leaves both rings) accepts every sequence of writes; afterwards
  the count is the number of samples written, saturated at the capacity, so it never
  exceeds the capacity, and reading \<open>count\<close> slots from \<open>(write_cursor - count) mod capacity\<close>
  onwards gives exactly the last \<open>count\<close> samples written, oldest first. Once
  \<open>capacity + k\<close> samples with \<open>k > 0\<close> have been written the count is the capacity and
  the reading is the last \<open>capacity\<close> samples.
\<close>

theorem ring_eviction:
  assumes "0 < cap" and "length buffer = cap"
  shows "\<exists>buffer' p' c'.
           ring_writes buffer cap 0 0 writes = Some (buffer', p', c')
           \<and> c' \<le> cap
           \<and> c' = min (length (concat writes)) cap
           \<and> retrieve buffer' cap p' c' = drop (length (concat writes) - c') (concat writes)
           \<and> (\<forall>k. 0 < k \<and> length (concat writes) = cap + k \<longrightarrow>
                  c' = cap \<and> retrieve buffer' cap p' c' = drop k (concat writes))"
proof -
  from ring_writes_holds [OF ring_holds_empty [OF assms], of writes] obtain b1 p1 c1
    where w: "ring_writes buffer cap 0 0 writes = Some (b1, p1, c1)"
      and h: "ring_holds (concat writes) b1 cap p1 c1" by auto
  from h have c1: "c1 = min (length (concat writes)) cap"
    by (simp add: ring_holds_def)
  have r: "retrieve b1 cap p1 c1 = drop (length (concat writes) - c1) (concat writes)"
    unfolding retrieve_def
    by (rule copy_loop_recent [OF h order_refl start_spec [OF h]])
  have "c1 = cap \<and> retrieve b1 cap p1 c1 = drop k (concat writes)"
    if "0 < k" "length (concat writes) = cap + k" for k
    using that r c1 by simp
  with w c1 r show ?thesis by simp
qed

theorem ring_eviction_witness:
  "(0::nat) < 3 \<and> length [0, 0, 0 :: real] = 3
   \<and> ring_writes [0, 0, 0 :: real] 3 0 0 [[1, 2], [3, 4, 5]] = Some ([4, 5, 3], 2, 3)
   \<and> retrieve [4, 5, 3 :: real] 3 2 3 = [3, 4, 5]
   \<and> length (concat [[1, 2], [3, 4, 5 :: real]]) = 3 + 2"
  using ring_eviction [of 3 "[0, 0, 0 :: real]" "[[1, 2], [3, 4, 5]]"]
  by (simp add: retrieve_def copy_loop_def upt_rec)

section \<open>Signal conditioner\<close>

lemma length_pre_emphasis_loop: "length (pre_emphasis_loop prev xs) = length xs"
  by (induction xs arbitrary: prev) simp_all

lemma nth_pre_emphasis_loop:
  "i < length xs \<Longrightarrow>
     pre_emphasis_loop prev xs ! i = xs ! i - PRE_EMPHASIS_ALPHA * (if i = 0 then prev else xs ! (i - 1))"
proof (induction xs arbitrary: prev i)
  case Nil
  then show ?case by simp
next
  case (Cons x xs)
  show ?case
  proof (cases i)
    case 0
    then show ?thesis by simp
  next
    case (Suc j)
    with Cons.prems have "j < length xs" by simp
    from Cons.IH [OF this, of x] Suc show ?thesis
      by (cases j) simp_all
  qed
qed

lemma length_apply_pre_emphasis: "length (apply_pre_emphasis xs) = length xs"
  by (cases xs) (simp_all add: apply_pre_emphasis_def length_pre_emphasis_loop)

lemma apply_pre_emphasis_short: "length xs < 2 \<Longrightarrow> apply_pre_emphasis xs = xs"
  by (simp add: apply_pre_emphasis_def)

lemma nth_apply_pre_emphasis_0: "xs \<noteq> [] \<Longrightarrow> apply_pre_emphasis xs ! 0 = xs ! 0"
  by (cases xs) (simp_all add: apply_pre_emphasis_def)

lemma nth_apply_pre_emphasis:
  assumes "1 \<le> i" "i < length xs"
  shows "apply_pre_emphasis xs ! i = xs ! i - PRE_EMPHASIS_ALPHA * xs ! (i - 1)"
proof -
  obtain x rest where xs: "xs = x # rest" using assms by (cases xs) auto
  obtain j where i: "i = Suc j" using assms by (cases i) auto
  have j: "j < length rest" using assms xs i by simp
  have "2 \<le> length xs" using assms by simp
  then have "apply_pre_emphasis xs ! i = pre_emphasis_loop x rest ! j"
    using xs i by (simp add: apply_pre_emphasis_def)
  also have "\<dots> = rest ! j - PRE_EMPHASIS_ALPHA * (if j = 0 then x else rest ! (j - 1))"
    by (rule nth_pre_emphasis_loop [OF j])
  also have "\<dots> = xs ! i - PRE_EMPHASIS_ALPHA * xs ! (i - 1)"
    using xs i by (cases j) simp_all
  finally show ?thesis .
qed

lemma length_hann_loop: "length (hann_loop n k xs) = length xs"
  by (induction xs arbitrary: k) simp_all

lemma nth_hann_loop:
  "i < length xs \<Longrightarrow> hann_loop n k xs ! i = xs ! i * hann_weight n (k + i)"
proof (induction xs arbitrary: k i)
  case Nil
  then show ?case by simp
next
  case (Cons x xs)
  then show ?case by (cases i) simp_all
qed

lemma length_apply_hann_window: "length (apply_hann_window xs) = length xs"
  by (simp add: apply_hann_window_def length_hann_loop)

lemma apply_hann_window_short: "length xs \<le> 1 \<Longrightarrow> apply_hann_window xs = xs"
  by (simp add: apply_hann_window_def)

lemma nth_apply_hann_window:
  "1 < length xs \<Longrightarrow> i < length xs \<Longrightarrow>
     apply_hann_window xs ! i = xs ! i * hann_weight (length xs) i"
  by (simp add: apply_hann_window_def nth_hann_loop)

lemma hann_weight_0: "hann_weight n 0 = 0"
  by (simp add: hann_weight_def)

lemma hann5: "hann_weight 5 0 = 0" "hann_weight 5 1 = 1 / 2" "hann_weight 5 2 = 1"
  "hann_weight 5 3 = 1 / 2" "hann_weight 5 4 = 0"
proof -
  have a: "2 * pi * real 1 / (real 5 - 1) = pi / 2" by simp
  have b: "2 * pi * real 2 / (real 5 - 1) = pi" by simp
  have c: "2 * pi * real 3 / (real 5 - 1) = 3 / 2 * pi" by simp
  have d: "2 * pi * real 4 / (real 5 - 1) = 2 * pi" by simp
  show "hann_weight 5 0 = 0" by (simp add: hann_weight_def)
  show "hann_weight 5 1 = 1 / 2" unfolding hann_weight_def a by simp
  show "hann_weight 5 2 = 1" unfolding hann_weight_def b by simp
  show "hann_weight 5 3 = 1 / 2" unfolding hann_weight_def c by (simp only: cos_3over2_pi) simp
  show "hann_weight 5 4 = 0" unfolding hann_weight_def d by simp
qed

lemma hann5_Suc: "hann_weight 5 (Suc 0) = 1 / 2" "hann_weight 5 (Suc (Suc 0)) = 1"
  "hann_weight 5 (Suc (Suc (Suc 0))) = 1 / 2" "hann_weight 5 (Suc (Suc (Suc (Suc 0)))) = 0"
  using hann5 by (simp_all add: eval_nat_numeral)

lemma pre_ex: "apply_pre_emphasis [1, 1, 1, 1] = [1, 5 / 100, 5 / 100, 5 / 100]"
  by (simp add: apply_pre_emphasis_def PRE_EMPHASIS_ALPHA_def)

lemma hann_ex: "apply_hann_window [1, 1, 1, 1, 1] = [0, 1 / 2, 1, 1 / 2, 0]"
proof -
  have l: "length [1, 1, 1, 1, 1 :: real] = 5" by simp
  show ?thesis
    unfolding apply_hann_window_def l by (simp add: hann5 hann5_Suc)
qed


text \<open>
  C5. \<open>apply_pre_emphasis\<close> keeps the length and the first sample, replaces every later
  sample \<open>x[i]\<close> by \<open>x[i] - 0.95 * x[i-1]\<close> with the unfiltered predecessor, leaves a
  sequence of fewer than two samples as it is, and maps \<open>[1,1,1,1]\<close> to
  \<open>[1, 0.05, 0.05, 0.05]\<close>.
\<close>

theorem pre_emphasis_filter:
  "length (apply_pre_emphasis x) = length x
   \<and> (x \<noteq> [] \<longrightarrow> apply_pre_emphasis x ! 0 = x ! 0)
   \<and> (\<forall>i. 1 \<le> i \<and> i < length x \<longrightarrow>
          apply_pre_emphasis x ! i = x ! i - 0.95 * x ! (i - 1))
   \<and> (length x < 2 \<longrightarrow> apply_pre_emphasis x = x)
   \<and> apply_pre_emphasis [1, 1, 1, 1] = [1, 0.05, 0.05, 0.05]"
proof (intro conjI allI impI)
  show "length (apply_pre_emphasis x) = length x"
    by (rule length_apply_pre_emphasis)
  show "apply_pre_emphasis x ! 0 = x ! 0" if "x \<noteq> []"
    using that by (rule nth_apply_pre_emphasis_0)
  show "apply_pre_emphasis x ! i = x ! i - 0.95 * x ! (i - 1)" if "1 \<le> i \<and> i < length x" for i
    using that nth_apply_pre_emphasis [of i x] by (simp add: PRE_EMPHASIS_ALPHA_def)
  show "apply_pre_emphasis x = x" if "length x < 2"
    using that by (rule apply_pre_emphasis_short)
  show "apply_pre_emphasis [1, 1, 1, 1] = [1, 0.05, 0.05, 0.05]"
    using pre_ex by simp
qed

theorem pre_emphasis_filter_witness:
  "[2, 4, 6 :: real] \<noteq> [] \<and> apply_pre_emphasis [2, 4, 6] ! 0 = 2
   \<and> (1::nat) \<le> 2 \<and> 2 < length [2, 4, 6 :: real]
   \<and> apply_pre_emphasis [2, 4, 6] ! 2 = 6 - 0.95 * 4
   \<and> length [7 :: real] < 2 \<and> apply_pre_emphasis [7] = [7]"
  using pre_emphasis_filter [of "[2, 4, 6]"] pre_emphasis_filter [of "[7]"]
  by (simp add: apply_pre_emphasis_def PRE_EMPHASIS_ALPHA_def)

text \<open>
  C6. \<open>apply_hann_window\<close> keeps the length, multiplies sample \<open>i\<close> of \<open>N > 1\<close> samples by
  \<open>0.5 * (1 - cos (2 * pi * i / (N - 1)))\<close>, leaves a sequence of at most one sample as it
  is, and maps five ones to the window \<open>[0, 0.5, 1, 0.5, 0]\<close> itself.
\<close>

theorem hann_window_weights:
  "length (apply_hann_window x) = length x
   \<and> (\<forall>i. 1 < length x \<and> i < length x \<longrightarrow>
          apply_hann_window x ! i
            = x ! i * (0.5 * (1 - cos (2 * pi * real i / (real (length x) - 1)))))
   \<and> (length x \<le> 1 \<longrightarrow> apply_hann_window x = x)
   \<and> apply_hann_window [1, 1, 1, 1, 1] = [0, 0.5, 1, 0.5, 0]"
proof (intro conjI allI impI)
  show "length (apply_hann_window x) = length x"
    by (rule length_apply_hann_window)
  show "apply_hann_window x ! i
          = x ! i * (0.5 * (1 - cos (2 * pi * real i / (real (length x) - 1))))"
    if "1 < length x \<and> i < length x" for i
    using that nth_apply_hann_window [of x i] by (simp add: hann_weight_def)
  show "apply_hann_window x = x" if "length x \<le> 1"
    using that by (rule apply_hann_window_short)
  show "apply_hann_window [1, 1, 1, 1, 1] = [0, 0.5, 1, 0.5, 0]"
    using hann_ex by simp
qed

theorem hann_window_weights_witness:
  "1 < length [3, 3, 3, 3, 3 :: real] \<and> 2 < length [3, 3, 3, 3, 3 :: real]
   \<and> apply_hann_window [3, 3, 3, 3, 3] ! 2 = 3
   \<and> length [7 :: real] \<le> 1 \<and> apply_hann_window [7] = [7]"
proof -
  have "cos (2 * pi * real 2 / (real (length [3, 3, 3, 3, 3 :: real]) - 1)) = - 1"
    by simp
  then show ?thesis
    using hann_window_weights [of "[3, 3, 3, 3, 3]"] hann_window_weights [of "[7]"]
    by (simp add: apply_hann_window_def)
qed

section \<open>Correlation engine: the lag search\<close>

lemma foldl_lag_step_fault: "foldl (lag_step f) (Inl e) ls = Inl e"
  by (induction ls) simp_all

lemma foldl_lag_step_result:
  assumes "foldl (lag_step f) (Inr (c0, l0, n0)) ls = Inr (bc, bl, n)"
  shows "(bc = c0 \<and> bl = l0 \<and> (\<forall>l\<in>set ls. \<forall>c. f l = Inr (Some c) \<longrightarrow> c \<le> c0))
       \<or> (\<exists>pre post. ls = pre @ bl # post \<and> f bl = Inr (Some bc) \<and> c0 < bc
             \<and> (\<forall>l\<in>set pre. \<forall>c. f l = Inr (Some c) \<longrightarrow> c < bc)
             \<and> (\<forall>l\<in>set post. \<forall>c. f l = Inr (Some c) \<longrightarrow> c \<le> bc))"
  using assms
proof (induction ls arbitrary: bc bl n rule: rev_induct)
  case Nil
  then show ?case by simp
next
  case (snoc x ls)
  have "\<exists>bc' bl' n'. foldl (lag_step f) (Inr (c0, l0, n0)) ls = Inr (bc', bl', n')"
  proof (cases "foldl (lag_step f) (Inr (c0, l0, n0)) ls")
    case (Inl e)
    with snoc.prems show ?thesis by simp
  next
    case (Inr best)
    then show ?thesis by (cases best) auto
  qed
  then obtain bc' bl' n' where prev: "foldl (lag_step f) (Inr (c0, l0, n0)) ls = Inr (bc', bl', n')"
    by blast
  with snoc.prems have step: "lag_step f (Inr (bc', bl', n')) x = Inr (bc, bl, n)" by simp
  note IH = snoc.IH [OF prev]
  have keep: ?case if same: "bc = bc'" "bl = bl'" and le: "\<forall>c. f x = Inr (Some c) \<longrightarrow> c \<le> bc'"
  proof -
    from IH show ?thesis
    proof
      assume "bc' = c0 \<and> bl' = l0 \<and> (\<forall>l\<in>set ls. \<forall>c. f l = Inr (Some c) \<longrightarrow> c \<le> c0)"
      then show ?thesis using same le by auto
    next
      assume "\<exists>pre post. ls = pre @ bl' # post \<and> f bl' = Inr (Some bc') \<and> c0 < bc'
             \<and> (\<forall>l\<in>set pre. \<forall>c. f l = Inr (Some c) \<longrightarrow> c < bc')
             \<and> (\<forall>l\<in>set post. \<forall>c. f l = Inr (Some c) \<longrightarrow> c \<le> bc')"
      then obtain pre post where p: "ls = pre @ bl' # post" "f bl' = Inr (Some bc')" "c0 < bc'"
        "\<forall>l\<in>set pre. \<forall>c. f l = Inr (Some c) \<longrightarrow> c < bc'"
        "\<forall>l\<in>set post. \<forall>c. f l = Inr (Some c) \<longrightarrow> c \<le> bc'" by blast
      have "ls @ [x] = pre @ bl # (post @ [x])" using p(1) same by simp
      moreover have "\<forall>l\<in>set (post @ [x]). \<forall>c. f l = Inr (Some c) \<longrightarrow> c \<le> bc"
        using p(5) same le by auto
      ultimately show ?thesis using p(2,3,4) same by blast
    qed
  qed
  show ?case
  proof (cases "f x")
    case (Inl e)
    with step show ?thesis by simp
  next
    case (Inr skipped_or_corr)
    show ?thesis
    proof (cases skipped_or_corr)
      case None
      with step Inr have "bc = bc'" "bl = bl'" by simp_all
      then show ?thesis using Inr None by (intro keep) simp_all
    next
      case (Some c)
      show ?thesis
      proof (cases "c > bc'")
        case True
        with step Inr Some have new: "bc = c" "bl = x" by simp_all
        have below: "\<forall>l\<in>set ls. \<forall>d. f l = Inr (Some d) \<longrightarrow> d < c" and c0: "c0 < c"
          using IH True by (auto; force)+
        have "ls @ [x] = ls @ bl # []" using new by simp
        then show ?thesis
          using below c0 new Inr Some by (intro disjI2 exI [of _ ls] exI [of _ "[]"]) simp
      next
        case False
        with step Inr Some have "bc = bc'" "bl = bl'" by simp_all
        then show ?thesis using Inr Some False by (intro keep) simp_all
      qed
    qed
  qed
qed

lemma upto_split_sorted:
  assumes "[i..j] = pre @ x # post"
  shows "i \<le> x \<and> x \<le> j \<and> (\<forall>l\<in>set pre. l < x) \<and> set pre \<union> {x} \<union> set post = {i..j}"
proof -
  have s: "sorted (pre @ x # post)" and d: "distinct (pre @ x # post)"
    using assms sorted_upto [of i j] distinct_upto [of i j] by simp_all
  have "set (pre @ x # post) = {i..j}" using assms by (metis set_upto)
  moreover have "\<forall>l\<in>set pre. l < x"
    using s d by (auto simp: sorted_append less_le)
  ultimately show ?thesis by auto
qed

lemma foldl_lag_step_skipped:
  "\<forall>l\<in>set ls. f l = Inr None \<Longrightarrow>
     foldl (lag_step f) (Inr (bc, bl, n)) ls = Inr (bc, bl, n)"
  by (induction ls) simp_all

lemma find_best_lag_Inr:
  assumes "find_best_lag ref tgt frames m = Inr best"
  shows "foldl (lag_step (snapshot_corr ref tgt frames)) (Inr (- 1, 0, 0)) [- m..m] = Inr best"
    and "frames \<le> length ref" and "frames \<le> length tgt" and "m \<noteq> INT_MIN" and "m \<noteq> INT_MAX"
  using assms by (auto simp: find_best_lag_def split: if_splits sum.splits)

lemma find_best_lag_ge:
  assumes "- m \<le> lag" "lag \<le> m" "snapshot_corr ref tgt frames lag = Inr (Some c)"
    and "find_best_lag ref tgt frames m = Inr (bc, bl, n)"
  shows "c \<le> bc"
proof -
  let ?f = "snapshot_corr ref tgt frames"
  note r = find_best_lag_Inr(1) [OF assms(4)]
  have lag: "lag \<in> set [- m..m]" using assms(1,2) by simp
  from foldl_lag_step_result [OF r] show "c \<le> bc"
  proof
    assume "bc = - 1 \<and> bl = 0 \<and> (\<forall>l\<in>set [- m..m]. \<forall>c. ?f l = Inr (Some c) \<longrightarrow> c \<le> - 1)"
    then show ?thesis using lag assms(3) by blast
  next
    assume "\<exists>pre post. [- m..m] = pre @ bl # post \<and> ?f bl = Inr (Some bc) \<and> - 1 < bc
             \<and> (\<forall>l\<in>set pre. \<forall>c. ?f l = Inr (Some c) \<longrightarrow> c < bc)
             \<and> (\<forall>l\<in>set post. \<forall>c. ?f l = Inr (Some c) \<longrightarrow> c \<le> bc)"
    then obtain pre post where p: "[- m..m] = pre @ bl # post" "?f bl = Inr (Some bc)"
      "\<forall>l\<in>set pre. \<forall>c. ?f l = Inr (Some c) \<longrightarrow> c < bc"
      "\<forall>l\<in>set post. \<forall>c. ?f l = Inr (Some c) \<longrightarrow> c \<le> bc" by blast
    from lag p(1) have "lag \<in> set pre \<or> lag = bl \<or> lag \<in> set post" by auto
    then show ?thesis using p(2,3,4) assms(3) by force
  qed
qed

subsection \<open>A lag within the snapshot\<close>

lemma overlap_no_wrap:
  assumes "nat \<bar>lag\<bar> \<le> frames" and "frames < 2 ^ 64"
  shows "overlap frames lag = frames - nat \<bar>lag\<bar>"
proof -
  have "0 \<le> int frames - int (nat \<bar>lag\<bar>)" using assms(1) by simp
  moreover have "int frames - int (nat \<bar>lag\<bar>) < 2 ^ 64"
  proof -
    have "int frames < 2 ^ 64"
      using assms(2) by (metis of_nat_less_iff of_nat_numeral of_nat_power)
    then show ?thesis by simp
  qed
  ultimately have "(int frames - int (nat \<bar>lag\<bar>)) mod 2 ^ 64 = int frames - int (nat \<bar>lag\<bar>)"
    by simp
  then show ?thesis by (simp add: overlap_def nat_diff_distrib')
qed

lemma reads_in_bounds:
  assumes "nat \<bar>lag\<bar> \<le> frames" and "frames < 2 ^ 64"
    and "frames \<le> length ref" and "frames \<le> length tgt"
  shows "\<not> (length ref < start_a lag + overlap frames lag
            \<or> length tgt < start_b lag + overlap frames lag)"
proof -
  have d: "frames - nat \<bar>lag\<bar> \<le> length ref" "frames - nat \<bar>lag\<bar> \<le> length tgt"
    using assms(3,4) by arith+
  show ?thesis
    unfolding overlap_no_wrap [OF assms(1,2)] start_a_def start_b_def
    using assms(1,3,4) d by (cases "0 \<le> lag") (simp_all add: not_less)
qed

lemma lag_corr_in_range:
  assumes "lag \<noteq> INT_MIN" and "nat \<bar>lag\<bar> \<le> frames" and "frames < 2 ^ 64"
    and "frames \<le> length ref" and "frames \<le> length tgt"
  shows "lag_corr ref tgt frames ref_mean tgt_mean lag =
     (if frames - nat \<bar>lag\<bar> < 1024 then Inr None
      else case lag_sums ref tgt ref_mean tgt_mean (if 0 \<le> lag then 0 else nat \<bar>lag\<bar>)
                  (if 0 \<le> lag then nat \<bar>lag\<bar> else 0) (frames - nat \<bar>lag\<bar>) of
             (sum_ab, sum_a2, sum_b2) \<Rightarrow>
               if sqrt (sum_a2 * sum_b2) < 1 / 10 ^ 8 then Inr None
               else Inr (Some (sum_ab / sqrt (sum_a2 * sum_b2))))"
proof -
  have "lag_corr ref tgt frames ref_mean tgt_mean lag =
     (if overlap frames lag < 1024 then Inr None
      else case lag_sums ref tgt ref_mean tgt_mean (start_a lag) (start_b lag)
                  (overlap frames lag) of
             (sum_ab, sum_a2, sum_b2) \<Rightarrow>
               if sqrt (sum_a2 * sum_b2) < 1 / 10 ^ 8 then Inr None
               else Inr (Some (sum_ab / sqrt (sum_a2 * sum_b2))))"
    using assms(1) reads_in_bounds [OF assms(2-5)]
    by (simp add: lag_corr_def Let_def)
  then show ?thesis
    by (simp only: overlap_no_wrap [OF assms(2,3)] start_a_def start_b_def)
qed

lemma lag_corr_int_min: "lag_corr ref tgt frames ref_mean tgt_mean INT_MIN = Inl Signed_Overflow"
  by (simp add: lag_corr_def)

subsection \<open>The search on the two pulse snapshots\<close>

lemma sum_list_sparse:
  fixes g :: "nat \<Rightarrow> real"
  assumes "\<forall>i. i < n \<and> \<not> (8 \<le> i \<and> i < 12) \<longrightarrow> g i = 0" and "12 \<le> n"
  shows "(\<Sum>i\<leftarrow>[0..<n]. g i) = g 8 + g 9 + g 10 + g 11"
proof -
  have "(\<Sum>i\<leftarrow>[0..<n]. g i) = sum g {0..<n}"
    by (simp add: sum_list_sum_nth atLeast0LessThan)
  also have "\<dots> = sum g {8..<12}"
    using assms by (intro sum.mono_neutral_right) auto
  also have "{8..<12::nat} = {8, 9, 10, 11}" by auto
  also have "sum g {8, 9, 10, 11} = g 8 + g 9 + g 10 + g 11" by simp
  finally show ?thesis .
qed

lemma nth_pulse_ref:
  "k < 1030 \<Longrightarrow> pulse_ref ! k = (if k = 11 then - 1 else if k = 10 then 1 else 0)"
  by (simp add: pulse_ref_def nth_list_update)

lemma nth_pulse_tgt:
  "k < 1030 \<Longrightarrow> pulse_tgt ! k = (if k = 11 then - 1 else if k = 9 then 1 else 0)"
  by (simp add: pulse_tgt_def nth_list_update)

lemma length_pulse: "length pulse_ref = 1030" "length pulse_tgt = 1030"
  by (simp_all add: pulse_ref_def pulse_tgt_def)

lemma sum_pulse: "sum_list pulse_ref = 0" "sum_list pulse_tgt = 0"
proof -
  have "sum_list pulse_ref = (\<Sum>i\<leftarrow>[0..<1030]. pulse_ref ! i)"
    using map_nth [of pulse_ref] length_pulse by simp
  also have "\<dots> = 0"
    by (subst sum_list_sparse) (simp_all add: nth_pulse_ref)
  finally show "sum_list pulse_ref = 0" .
  have "sum_list pulse_tgt = (\<Sum>i\<leftarrow>[0..<1030]. pulse_tgt ! i)"
    using map_nth [of pulse_tgt] length_pulse by simp
  also have "\<dots> = 0"
    by (subst sum_list_sparse) (simp_all add: nth_pulse_tgt)
  finally show "sum_list pulse_tgt = 0" .
qed

lemma sum_list_upt_cong:
  "(\<And>i. i < n \<Longrightarrow> f i = g i) \<Longrightarrow> (\<Sum>i\<leftarrow>[0..<n]. f i) = (\<Sum>i\<leftarrow>[0..<n]. (g i :: real))"
  by (rule arg_cong [where f = sum_list]) simp

lemma pulse_products:
  fixes F :: "real \<Rightarrow> real \<Rightarrow> real"
  assumes "a + n \<le> 1030" "b + n \<le> 1030" "12 \<le> n" "a \<le> 1" "b \<le> 1"
    and "F 0 0 = 0"
  shows "(\<Sum>i\<leftarrow>[0..<n]. F (pulse_ref ! (a + i)) (pulse_tgt ! (b + i)))
           = F (pulse_ref ! (a + 8)) (pulse_tgt ! (b + 8)) + F (pulse_ref ! (a + 9)) (pulse_tgt ! (b + 9))
             + F (pulse_ref ! (a + 10)) (pulse_tgt ! (b + 10))
             + F (pulse_ref ! (a + 11)) (pulse_tgt ! (b + 11))"
proof (rule sum_list_sparse)
  show "12 \<le> n" by fact
  show "\<forall>i. i < n \<and> \<not> (8 \<le> i \<and> i < 12) \<longrightarrow> F (pulse_ref ! (a + i)) (pulse_tgt ! (b + i)) = 0"
  proof (intro allI impI)
    fix i assume i: "i < n \<and> \<not> (8 \<le> i \<and> i < 12)"
    then have "a + i < 1030" "b + i < 1030" using assms(1,2) by simp_all
    moreover have "a + i \<noteq> 10" "a + i \<noteq> 11" "b + i \<noteq> 9" "b + i \<noteq> 11"
      using i assms(4,5) by auto
    ultimately have "pulse_ref ! (a + i) = 0" "pulse_tgt ! (b + i) = 0"
      by (simp_all add: nth_pulse_ref nth_pulse_tgt)
    then show "F (pulse_ref ! (a + i)) (pulse_tgt ! (b + i)) = 0"
      using assms(6) by simp
  qed
qed

lemma pulse_values:
  "pulse_ref ! 8 = 0" "pulse_ref ! 9 = 0" "pulse_ref ! 10 = 1" "pulse_ref ! 11 = - 1"
  "pulse_ref ! 12 = 0"
  "pulse_tgt ! 8 = 0" "pulse_tgt ! 9 = 1" "pulse_tgt ! 10 = 0" "pulse_tgt ! 11 = - 1"
  "pulse_tgt ! 12 = 0"
  by (simp_all add: nth_pulse_ref nth_pulse_tgt)

lemma pulse_sums:
  "lag_sums pulse_ref pulse_tgt 0 0 1 0 1029 = (1, 2, 2)"
  "lag_sums pulse_ref pulse_tgt 0 0 0 0 1030 = (1, 2, 2)"
  "lag_sums pulse_ref pulse_tgt 0 0 0 1 1029 = (- 1, 2, 2)"
proof -
  have ab: "(\<Sum>i\<leftarrow>[0..<n]. (pulse_ref ! (a + i) - 0) * (pulse_tgt ! (b + i) - 0))
      = pulse_ref ! (a + 8) * pulse_tgt ! (b + 8) + pulse_ref ! (a + 9) * pulse_tgt ! (b + 9)
        + pulse_ref ! (a + 10) * pulse_tgt ! (b + 10) + pulse_ref ! (a + 11) * pulse_tgt ! (b + 11)"
    if "a + n \<le> 1030" "b + n \<le> 1030" "12 \<le> n" "a \<le> 1" "b \<le> 1" for a b n
    using pulse_products [where F = "\<lambda>x y. x * y", OF that] by simp
  have aa: "(\<Sum>i\<leftarrow>[0..<n]. (pulse_ref ! (a + i) - 0) * (pulse_ref ! (a + i) - 0))
      = pulse_ref ! (a + 8) * pulse_ref ! (a + 8) + pulse_ref ! (a + 9) * pulse_ref ! (a + 9)
        + pulse_ref ! (a + 10) * pulse_ref ! (a + 10) + pulse_ref ! (a + 11) * pulse_ref ! (a + 11)"
    if "a + n \<le> 1030" "b + n \<le> 1030" "12 \<le> n" "a \<le> 1" "b \<le> 1" for a b n
    using pulse_products [where F = "\<lambda>x y. x * x", OF that] by simp
  have bb: "(\<Sum>i\<leftarrow>[0..<n]. (pulse_tgt ! (b + i) - 0) * (pulse_tgt ! (b + i) - 0))
      = pulse_tgt ! (b + 8) * pulse_tgt ! (b + 8) + pulse_tgt ! (b + 9) * pulse_tgt ! (b + 9)
        + pulse_tgt ! (b + 10) * pulse_tgt ! (b + 10) + pulse_tgt ! (b + 11) * pulse_tgt ! (b + 11)"
    if "a + n \<le> 1030" "b + n \<le> 1030" "12 \<le> n" "a \<le> 1" "b \<le> 1" for a b n
    using pulse_products [where F = "\<lambda>x y. y * y", OF that] by simp
  show "lag_sums pulse_ref pulse_tgt 0 0 1 0 1029 = (1, 2, 2)"
    unfolding lag_sums_def
    by (simp only: ab [of 1 1029 0] aa [of 1 1029 0] bb [of 1 1029 0]) (simp add: pulse_values)
  show "lag_sums pulse_ref pulse_tgt 0 0 0 0 1030 = (1, 2, 2)"
    unfolding lag_sums_def
    by (simp only: ab [of 0 1030 0] aa [of 0 1030 0] bb [of 0 1030 0]) (simp add: pulse_values)
  show "lag_sums pulse_ref pulse_tgt 0 0 0 1 1029 = (- 1, 2, 2)"
    unfolding lag_sums_def
    by (simp only: ab [of 0 1029 1] aa [of 0 1029 1] bb [of 0 1029 1]) (simp add: pulse_values)
qed


lemma pulse_sums':
  "lag_sums pulse_ref pulse_tgt 0 0 (Suc 0) 0 1029 = (1, 2, 2)"
  "lag_sums pulse_ref pulse_tgt 0 0 0 (Suc 0) 1029 = (- 1, 2, 2)"
  using pulse_sums by simp_all

lemma pulse_corr:
  "snapshot_corr pulse_ref pulse_tgt 1030 (- 1) = Inr (Some (1 / 2))"
  "snapshot_corr pulse_ref pulse_tgt 1030 0 = Inr (Some (1 / 2))"
  "snapshot_corr pulse_ref pulse_tgt 1030 1 = Inr (Some (- 1 / 2))"
proof -
  have four: "sqrt (2 * 2) = 2"
    using real_sqrt_abs2 [of 2] by simp
  have means: "snapshot_mean 1030 pulse_ref = 0" "snapshot_mean 1030 pulse_tgt = 0"
    by (simp_all add: snapshot_mean_def length_pulse sum_pulse)
  have r: "lag_corr pulse_ref pulse_tgt 1030 0 0 lag =
     (if 1030 - nat \<bar>lag\<bar> < 1024 then Inr None
      else case lag_sums pulse_ref pulse_tgt 0 0 (if 0 \<le> lag then 0 else nat \<bar>lag\<bar>)
                  (if 0 \<le> lag then nat \<bar>lag\<bar> else 0) (1030 - nat \<bar>lag\<bar>) of
             (sum_ab, sum_a2, sum_b2) \<Rightarrow>
               if sqrt (sum_a2 * sum_b2) < 1 / 10 ^ 8 then Inr None
               else Inr (Some (sum_ab / sqrt (sum_a2 * sum_b2))))"
    if "lag \<noteq> INT_MIN" "nat \<bar>lag\<bar> \<le> 1030" for lag
    using that by (intro lag_corr_in_range) (simp_all add: length_pulse)
  show "snapshot_corr pulse_ref pulse_tgt 1030 (- 1) = Inr (Some (1 / 2))"
    unfolding snapshot_corr_def means
    by (subst r) (simp_all add: INT_MIN_def pulse_sums' four)
  show "snapshot_corr pulse_ref pulse_tgt 1030 0 = Inr (Some (1 / 2))"
    unfolding snapshot_corr_def means
    by (subst r) (simp_all add: INT_MIN_def pulse_sums four)
  show "snapshot_corr pulse_ref pulse_tgt 1030 1 = Inr (Some (- 1 / 2))"
    unfolding snapshot_corr_def means
    by (subst r) (simp_all add: INT_MIN_def pulse_sums' four)
qed

lemma pulse_search: "find_best_lag pulse_ref pulse_tgt 1030 1 = Inr (1 / 2, - 1, 3)"
proof -
  have "[- 1..1::int] = [- 1, 0, 1]"
    by (simp add: upto_rec1)
  then show ?thesis
    by (simp add: find_best_lag_def pulse_corr length_pulse INT_MIN_def INT_MAX_def)
qed

text \<open>
  C4, as the code has it. The lags are scanned from \<open>-max_lag\<close> up to \<open>max_lag\<close> and a lag
  replaces the best one only when its correlation is strictly greater. So either no
  lag in the range has a correlation above the initial \<open>-1\<close> and the search returns
  \<open>(-1, 0)\<close>, or it returns a lag of the range together with its correlation, which is
  the maximum over the range, and every smaller lag of the range has a strictly
  smaller correlation: among the lags that reach the maximum the result is the first
  in scanning order, the most negative one, not the one of smallest magnitude.
\<close>

theorem find_best_lag_first_maximum:
  assumes "find_best_lag ref tgt frames m = Inr (bc, bl, n)"
  shows "(bc = - 1 \<and> bl = 0
          \<and> (\<forall>lag c. - m \<le> lag \<and> lag \<le> m \<and> snapshot_corr ref tgt frames lag = Inr (Some c) \<longrightarrow> c \<le> - 1))
       \<or> (- m \<le> bl \<and> bl \<le> m \<and> snapshot_corr ref tgt frames bl = Inr (Some bc) \<and> - 1 < bc
          \<and> (\<forall>lag c. - m \<le> lag \<and> lag \<le> m \<and> snapshot_corr ref tgt frames lag = Inr (Some c) \<longrightarrow>
                c \<le> bc \<and> (lag < bl \<longrightarrow> c < bc)))"
proof -
  let ?f = "snapshot_corr ref tgt frames"
  note r = find_best_lag_Inr(1) [OF assms]
  from foldl_lag_step_result [OF r] show ?thesis
  proof
    assume "bc = - 1 \<and> bl = 0 \<and> (\<forall>l\<in>set [- m..m]. \<forall>c. ?f l = Inr (Some c) \<longrightarrow> c \<le> - 1)"
    then show ?thesis by auto
  next
    assume "\<exists>pre post. [- m..m] = pre @ bl # post \<and> ?f bl = Inr (Some bc) \<and> - 1 < bc
             \<and> (\<forall>l\<in>set pre. \<forall>c. ?f l = Inr (Some c) \<longrightarrow> c < bc)
             \<and> (\<forall>l\<in>set post. \<forall>c. ?f l = Inr (Some c) \<longrightarrow> c \<le> bc)"
    then obtain pre post where p: "[- m..m] = pre @ bl # post" "?f bl = Inr (Some bc)" "- 1 < bc"
      "\<forall>l\<in>set pre. \<forall>c. ?f l = Inr (Some c) \<longrightarrow> c < bc"
      "\<forall>l\<in>set post. \<forall>c. ?f l = Inr (Some c) \<longrightarrow> c \<le> bc" by blast
    note sp = upto_split_sorted [OF p(1)]
    have "c \<le> bc \<and> (lag < bl \<longrightarrow> c < bc)"
      if "- m \<le> lag \<and> lag \<le> m \<and> ?f lag = Inr (Some c)" for lag c
    proof -
      from that sp have "lag \<in> set pre \<or> lag = bl \<or> lag \<in> set post" by auto
      then show ?thesis
      proof (elim disjE)
        assume "lag \<in> set pre"
        then show ?thesis using p(4) that by force
      next
        assume "lag = bl"
        then show ?thesis using p(2) that by simp
      next
        assume a: "lag \<in> set post"
        have "distinct (pre @ bl # post)" "sorted (pre @ bl # post)"
          using p(1) distinct_upto [of "- m" m] sorted_upto [of "- m" m] by simp_all
        then have "bl < lag" using a by (auto simp: sorted_append less_le)
        then show ?thesis using p(5) a that by force
      qed
    qed
    then show ?thesis using sp p(2,3) by blast
  qed
qed

theorem find_best_lag_first_maximum_witness:
  "find_best_lag pulse_ref pulse_tgt 1030 1 = Inr (1 / 2, - 1, 3)
   \<and> snapshot_corr pulse_ref pulse_tgt 1030 (- 1) = Inr (Some (1 / 2))
   \<and> (- 1 :: real) < 1 / 2"
  using find_best_lag_first_maximum [OF pulse_search] pulse_search
  by simp

text \<open>
  On the two pulse snapshots the lags \<open>-1\<close> and \<open>0\<close> both reach the maximal correlation
  \<open>1/2\<close>; the search returns \<open>-1\<close>, the first of them, although \<open>0\<close> has the smaller
  magnitude.
\<close>

theorem find_best_lag_tie_counterexample:
  "find_best_lag pulse_ref pulse_tgt 1030 1 = Inr (1 / 2, - 1, 3)
   \<and> snapshot_corr pulse_ref pulse_tgt 1030 (- 1) = Inr (Some (1 / 2))
   \<and> snapshot_corr pulse_ref pulse_tgt 1030 0 = Inr (Some (1 / 2))
   \<and> snapshot_corr pulse_ref pulse_tgt 1030 1 = Inr (Some (- 1 / 2))
   \<and> \<bar>0 :: int\<bar> < \<bar>- 1\<bar>"
  using pulse_search pulse_corr by simp

section \<open>Snapshot\<close>

lemma copy_loop_replicate:
  "0 < cap \<Longrightarrow> copy_loop (replicate cap c) cap start frames = replicate frames c"
  by (simp add: copy_loop_def map_replicate_const)

lemma pre_emphasis_loop_zeros: "pre_emphasis_loop 0 (replicate n 0) = replicate n 0"
  by (induction n) simp_all

lemma apply_pre_emphasis_zeros: "apply_pre_emphasis (replicate n 0) = replicate n 0"
proof (cases n)
  case 0
  then show ?thesis by (simp add: apply_pre_emphasis_def)
next
  case (Suc m)
  then show ?thesis by (simp add: apply_pre_emphasis_def pre_emphasis_loop_zeros)
qed

lemma hann_loop_zeros: "hann_loop frames k (replicate n 0) = replicate n 0"
  by (induction n arbitrary: k) simp_all

lemma apply_hann_window_zeros: "apply_hann_window (replicate n 0) = replicate n 0"
  by (simp add: apply_hann_window_def hann_loop_zeros)

lemma ring_holds_frames:
  assumes "ring_holds written buffer cap p c" and "frames \<le> c"
  shows "copy_loop buffer cap ((p + cap - frames) mod cap) frames
           = drop (length written - frames) written"
  by (rule copy_loop_recent [OF assms start_code [OF assms]])

lemma ones_ring_holds:
  "ring_holds (replicate 2049 1) (replicate 2049 1 @ replicate 237951 (0::real)) 240000 2049 2049"
  by (simp add: ring_holds_def nth_append)

lemma ones_frames:
  "min (ms_to_samples (window_ms ones_meter) (sample_rate ones_meter))
       (min (ref_count ones_meter) (tgt_count ones_meter)) = 2049"
  by (simp add: ones_meter_def silent_meter_def ms_to_samples_def)

lemma conditioned_first_sample:
  assumes "1 < length x"
  shows "apply_hann_window (apply_pre_emphasis x) ! 0 = 0"
proof -
  have "1 < length (apply_pre_emphasis x)" and "0 < length (apply_pre_emphasis x)"
    using assms by (auto simp: length_apply_pre_emphasis)
  from nth_apply_hann_window [OF this] show ?thesis
    by (simp add: hann_weight_0)
qed

text \<open>
  C3, as the code has it. With \<open>frames\<close> the smallest of the analysis window in frames
  and the two counts, the copy loop of \<open>copy_recent\<close> fills its two fresh sequences with
  exactly the last \<open>frames\<close> samples written to each ring, in the order written and
  whatever the position of the write cursors. \<open>copy_recent\<close> fails when \<open>frames\<close> is
  below 1024 or an allocation fails; otherwise it returns \<open>frames\<close> and the two
  sequences after pre-emphasis and Hann windowing, which it applies in place before
  handing them out.
\<close>

theorem copy_recent_snapshot:
  assumes "ring_holds ref_written (ref_buffer dm) (capacity dm) (ref_pos dm) (ref_count dm)"
    and "ring_holds tgt_written (tgt_buffer dm) (capacity dm) (tgt_pos dm) (tgt_count dm)"
    and "frames = min (ms_to_samples (window_ms dm) (sample_rate dm))
                      (min (ref_count dm) (tgt_count dm))"
  shows "copy_loop (ref_buffer dm) (capacity dm)
           ((ref_pos dm + capacity dm - frames) mod capacity dm) frames
           = drop (length ref_written - frames) ref_written
    \<and> copy_loop (tgt_buffer dm) (capacity dm)
           ((tgt_pos dm + capacity dm - frames) mod capacity dm) frames
           = drop (length tgt_written - frames) tgt_written
    \<and> copy_recent h dm =
        (if frames < 1024 \<or> \<not> bmalloc h (frames * 4) then None
         else Some (apply_hann_window (apply_pre_emphasis (drop (length ref_written - frames) ref_written)),
                    apply_hann_window (apply_pre_emphasis (drop (length tgt_written - frames) tgt_written)),
                    frames))"
proof -
  have f: "frames \<le> ref_count dm" "frames \<le> tgt_count dm"
    using assms(3) by simp_all
  note r = ring_holds_frames [OF assms(1) f(1)]
  note t = ring_holds_frames [OF assms(2) f(2)]
  have "frames = (let available = (if ref_count dm < tgt_count dm then ref_count dm else tgt_count dm);
                      window_frames = ms_to_samples (window_ms dm) (sample_rate dm)
                  in if available < window_frames then available else window_frames)"
    using assms(3) by (auto simp: Let_def min_def)
  then have "copy_recent h dm =
        (if frames < 1024 \<or> \<not> bmalloc h (frames * 4) then None
         else Some (apply_hann_window (apply_pre_emphasis
                      (copy_loop (ref_buffer dm) (capacity dm)
                         ((ref_pos dm + capacity dm - frames) mod capacity dm) frames)),
                    apply_hann_window (apply_pre_emphasis
                      (copy_loop (tgt_buffer dm) (capacity dm)
                         ((tgt_pos dm + capacity dm - frames) mod capacity dm) frames)),
                    frames))"
    by (simp add: copy_recent_def Let_def)
  then show ?thesis using r t by simp
qed

theorem copy_recent_snapshot_witness:
  "ring_holds (replicate 2049 1) (ref_buffer ones_meter) (capacity ones_meter)
     (ref_pos ones_meter) (ref_count ones_meter)
   \<and> ring_holds (replicate 2049 1) (tgt_buffer ones_meter) (capacity ones_meter)
     (tgt_pos ones_meter) (tgt_count ones_meter)
   \<and> copy_loop (ref_buffer ones_meter) 240000 0 2049 = replicate 2049 1
   \<and> copy_recent studio ones_meter
       = Some (apply_hann_window (apply_pre_emphasis (replicate 2049 1)),
               apply_hann_window (apply_pre_emphasis (replicate 2049 1)), 2049)"
proof -
  have r: "ring_holds (replicate 2049 1) (ref_buffer ones_meter) (capacity ones_meter)
     (ref_pos ones_meter) (ref_count ones_meter)"
    using ones_ring_holds by (simp add: ones_meter_def silent_meter_def)
  have t: "ring_holds (replicate 2049 1) (tgt_buffer ones_meter) (capacity ones_meter)
     (tgt_pos ones_meter) (tgt_count ones_meter)"
    using ones_ring_holds by (simp add: ones_meter_def silent_meter_def)
  have c: "capacity ones_meter = 240000" "ref_pos ones_meter = 2049"
    by (simp_all add: ones_meter_def silent_meter_def)
  from copy_recent_snapshot [OF r t ones_frames [symmetric], of studio]
  show ?thesis using r t c by (simp add: studio_def)
qed

text \<open>
  After 2049 ones have been written to both rings \<open>copy_recent\<close> succeeds, and the first
  sample it returns is 0, not the 1 that was written: the returned sequences are not
  the written values.
\<close>

theorem copy_recent_conditioned_counterexample:
  "ring_holds (replicate 2049 1) (ref_buffer ones_meter) (capacity ones_meter)
     (ref_pos ones_meter) (ref_count ones_meter)
   \<and> ring_holds (replicate 2049 1) (tgt_buffer ones_meter) (capacity ones_meter)
     (tgt_pos ones_meter) (tgt_count ones_meter)
   \<and> copy_recent studio ones_meter
       = Some (apply_hann_window (apply_pre_emphasis (replicate 2049 1)),
               apply_hann_window (apply_pre_emphasis (replicate 2049 1)), 2049)
   \<and> apply_hann_window (apply_pre_emphasis (replicate 2049 1)) ! 0 = 0
   \<and> replicate 2049 (1::real) ! 0 = 1
   \<and> apply_hann_window (apply_pre_emphasis (replicate 2049 1)) \<noteq> replicate 2049 1"
proof -
  have r: "ring_holds (replicate 2049 1) (ref_buffer ones_meter) (capacity ones_meter)
     (ref_pos ones_meter) (ref_count ones_meter)"
    using ones_ring_holds by (simp add: ones_meter_def silent_meter_def)
  have t: "ring_holds (replicate 2049 1) (tgt_buffer ones_meter) (capacity ones_meter)
     (tgt_pos ones_meter) (tgt_count ones_meter)"
    using ones_ring_holds by (simp add: ones_meter_def silent_meter_def)
  have start: "(2049 + 240000 - 2049) mod 240000 = (0::nat)" by simp
  have raw: "copy_loop (replicate 2049 1 @ replicate 237951 (0::real)) 240000 0 2049
               = replicate 2049 1"
    using ring_holds_frames [OF ones_ring_holds order_refl] by simp
  have w: "ms_to_samples 1000 48000 = 48000"
    by (simp add: ms_to_samples_def)
  have copy: "copy_recent studio ones_meter
       = Some (apply_hann_window (apply_pre_emphasis (replicate 2049 1)),
               apply_hann_window (apply_pre_emphasis (replicate 2049 1)), 2049)"
    by (simp add: copy_recent_def ones_meter_def silent_meter_def studio_def w raw)
  have zero: "apply_hann_window (apply_pre_emphasis (replicate 2049 1)) ! 0 = 0"
    by (rule conditioned_first_sample) simp
  have one: "replicate 2049 (1::real) ! 0 = 1" by simp
  from zero one have "apply_hann_window (apply_pre_emphasis (replicate 2049 1)) \<noteq> replicate 2049 1"
    by (metis zero_neq_one)
  with r t copy zero one show ?thesis by simp
qed


section \<open>Correlation engine: the guards of the division\<close>

lemma sum_list_zeros: "(\<And>i. i < n \<Longrightarrow> g i = (0::real)) \<Longrightarrow> (\<Sum>i\<leftarrow>[0..<n]. g i) = 0"
  by (induction n) simp_all




lemma snapshot_mean_constant: "0 < frames \<Longrightarrow> snapshot_mean frames (replicate frames c) = c"
  by (simp add: snapshot_mean_def sum_list_replicate)

lemma constant_ref_skipped:
  assumes "lag \<noteq> INT_MIN" and "nat \<bar>lag\<bar> \<le> frames" and "frames < 2 ^ 64"
    and "frames \<le> length tgt"
  shows "snapshot_corr (replicate frames c) tgt frames lag = Inr None"
proof (cases "frames - nat \<bar>lag\<bar> < 1024")
  case True
  then show ?thesis
    unfolding snapshot_corr_def
    by (subst lag_corr_in_range [OF assms(1,2,3) _ assms(4)]) simp_all
next
  case False
  then have pos: "0 < frames" by simp
  let ?a = "if 0 \<le> lag then 0 else nat \<bar>lag\<bar>"
  have "(\<Sum>i\<leftarrow>[0..<frames - nat \<bar>lag\<bar>].
          (replicate frames c ! (?a + i) - c) * (replicate frames c ! (?a + i) - c)) = 0"
    using assms(2) by (intro sum_list_zeros) auto
  then show ?thesis
    unfolding snapshot_corr_def snapshot_mean_constant [OF pos]
    using False
    by (subst lag_corr_in_range [OF assms(1,2,3) _ assms(4)]) (simp_all add: lag_sums_def)
qed


lemma find_best_lag_all_skipped:
  assumes "\<forall>lag. - m \<le> lag \<and> lag \<le> m \<longrightarrow> snapshot_corr ref tgt frames lag = Inr None"
    and "frames \<le> length ref" and "frames \<le> length tgt"
    and "m \<noteq> INT_MIN" and "m \<noteq> INT_MAX"
  shows "find_best_lag ref tgt frames m = Inr (- 1, 0, 0)"
proof -
  have "foldl (lag_step (snapshot_corr ref tgt frames)) (Inr (- 1, 0, 0)) [- m..m]
          = Inr (- 1, 0, 0)"
    by (rule foldl_lag_step_skipped) (use assms(1) in auto)
  then show ?thesis
    using assms(2-5) by (simp add: find_best_lag_def not_less)
qed

subsection \<open>The lags that the clamp admits\<close>

lemma int_cast_less: "int_cast x < 2 ^ 31"
  using signed_take_bit_int_less_exp [of 31 "int x"] by (simp add: int_cast_eq)

lemma int_cast_greater_eq: "- (2 ^ 31) \<le> int_cast x"
  using signed_take_bit_int_greater_eq_minus_exp [of 31 "int x"] by (simp add: int_cast_eq)

lemma max_lag_samples_less: "max_lag_samples lag_ms rate frames < 2 ^ 31"
  using int_cast_less [of "ms_to_samples lag_ms rate"]
  by (simp add: max_lag_samples_def Let_def)

lemma max_lag_samples_not_max: "max_lag_samples lag_ms rate frames \<noteq> INT_MAX"
proof
  assume a: "max_lag_samples lag_ms rate frames = INT_MAX"
  have "int_cast frames sdiv 2 \<le> 2 ^ 30"
  proof -
    have a: "\<bar>int_cast frames sdiv 2\<bar> \<le> \<bar>int_cast frames\<bar> div 2"
      by (simp add: signed_divide_int_def abs_mult sgn_if)
    have "\<bar>int_cast frames\<bar> \<le> 2147483648"
      using int_cast_less [of frames] int_cast_greater_eq [of frames] by (simp add: abs_le_iff)
    then have "\<bar>int_cast frames\<bar> div 2 \<le> 2147483648 div 2"
      by (intro zdiv_mono1) simp_all
    with a have "\<bar>int_cast frames sdiv 2\<bar> \<le> 1073741824" by simp
    then show ?thesis by simp
  qed
  moreover have "max_lag_samples lag_ms rate frames \<le> int_cast frames sdiv 2"
    by (simp add: max_lag_samples_def Let_def)
  ultimately show False using a by (simp add: INT_MAX_def)
qed

lemma clamped_lag_in_frames:
  assumes "- max_lag_samples lag_ms rate frames \<le> lag" and "lag \<le> max_lag_samples lag_ms rate frames"
  shows "lag \<noteq> INT_MIN" and "nat \<bar>lag\<bar> \<le> frames"
proof -
  let ?m = "max_lag_samples lag_ms rate frames"
  have abs: "\<bar>lag\<bar> \<le> ?m" using assms by linarith
  with max_lag_samples_less [of lag_ms rate frames] show "lag \<noteq> INT_MIN"
    by (auto simp: INT_MIN_def)
  have "?m \<le> int (frames div 2)" by (rule max_lag_samples_le)
  also have "\<dots> \<le> int frames" by simp
  finally show "nat \<bar>lag\<bar> \<le> frames" using abs by linarith
qed

lemma copy_recent_lengths:
  assumes "copy_recent h dm = Some (ref, tgt, frames)"
  shows "length ref = frames" and "length tgt = frames" and "1024 \<le> frames" and "frames < 2 ^ 64"
proof -
  let ?w = "ms_to_samples (window_ms dm) (sample_rate dm)"
  let ?f = "if (if ref_count dm < tgt_count dm then ref_count dm else tgt_count dm) < ?w
            then (if ref_count dm < tgt_count dm then ref_count dm else tgt_count dm) else ?w"
  from assms have f: "frames = ?f" and big: "\<not> ?f < 1024"
    and r: "ref = apply_hann_window (apply_pre_emphasis
              (copy_loop (ref_buffer dm) (capacity dm) ((ref_pos dm + capacity dm - ?f) mod capacity dm) ?f))"
    and t: "tgt = apply_hann_window (apply_pre_emphasis
              (copy_loop (tgt_buffer dm) (capacity dm) ((tgt_pos dm + capacity dm - ?f) mod capacity dm) ?f))"
    by (auto simp: copy_recent_def Let_def split: if_splits)
  show "length ref = frames" and "length tgt = frames"
    unfolding r t f
    by (simp_all add: length_apply_hann_window length_apply_pre_emphasis copy_loop_def)
  show "1024 \<le> frames" using f big by simp
  have "?w < 2 ^ 64"
    unfolding ms_to_samples_def using unsigned_less [where 'a = nat and 'b = 64] by simp
  then show "frames < 2 ^ 64" using f by (simp split: if_splits)
qed

lemma estimate_delay_snapshot:
  "copy_recent h dm = Some (ref, tgt, frames) \<Longrightarrow>
     estimate_delay h dm = estimate_from_snapshot (max_lag_ms dm) (sample_rate dm) ref tgt frames"
  by (simp add: estimate_delay_def)

lemma estimate_from_snapshot_Inr:
  assumes "find_best_lag ref tgt frames (max_lag_samples lag_ms rate frames)
             = Inr (best_corr, best_lag, lag_count)"
  shows "estimate_from_snapshot lag_ms rate ref tgt frames =
           Inr (if best_corr < MIN_CORR_THRESHOLD then None
                else Some (real_of_int best_lag * 1000 / real (unat rate), best_corr))"
  using assms by (simp add: estimate_from_snapshot_def)


lemma estimate_from_snapshot_int_min:
  assumes "max_lag_samples lag_ms rate frames = INT_MIN"
    and "frames \<le> length ref" and "frames \<le> length tgt"
  shows "estimate_from_snapshot lag_ms rate ref tgt frames = Inl Signed_Overflow"
  using assms by (simp add: estimate_from_snapshot_def find_best_lag_def not_less)

subsection \<open>The silent meter\<close>

lemma silent_copy_recent:
  "copy_recent studio silent_meter = Some (replicate 2048 0, replicate 2048 0, 2048)"
proof -
  have w: "ms_to_samples 1000 48000 = 48000"
    by (simp add: ms_to_samples_def)
  have c: "copy_loop (replicate 240000 (0::real)) 240000 0 2048 = replicate 2048 0"
    by (rule copy_loop_replicate) simp
  show ?thesis
    by (simp add: copy_recent_def silent_meter_def studio_def w c
          apply_pre_emphasis_zeros apply_hann_window_zeros)
qed

lemma silent_max_lag: "max_lag_samples 500 48000 2048 = 1024"
  by (simp add: max_lag_samples_def ms_to_samples_def int_cast_def)

lemma silent_skipped:
  "\<forall>l. - 1024 \<le> l \<and> l \<le> 1024 \<longrightarrow>
     snapshot_corr (replicate 2048 0) (replicate 2048 0) 2048 l = Inr None"
proof (intro allI impI)
  fix l :: int assume "- 1024 \<le> l \<and> l \<le> 1024"
  then have "l \<noteq> INT_MIN" "nat \<bar>l\<bar> \<le> 2048"
    by (auto simp: INT_MIN_def)
  then show "snapshot_corr (replicate 2048 0) (replicate 2048 0) 2048 l = Inr None"
    by (intro constant_ref_skipped) simp_all
qed

lemma silent_search:
  "find_best_lag (replicate 2048 0) (replicate 2048 0) 2048 1024 = Inr (- 1, 0, 0)"
  using silent_skipped by (rule find_best_lag_all_skipped) (simp_all add: INT_MIN_def INT_MAX_def)


subsection \<open>A maximal lag that is INT_MIN\<close>

lemma overflow_max_lag:
  "max_lag_samples (max_lag_ms overflow_meter) (sample_rate overflow_meter) 2048 = INT_MIN"
  by (simp add: overflow_meter_def silent_meter_def max_lag_samples_def ms_to_samples_def
        int_cast_def INT_MIN_def)

lemma overflow_copy_recent:
  "copy_recent studio overflow_meter = Some (replicate 2048 0, replicate 2048 0, 2048)"
proof -
  have "copy_recent studio overflow_meter = copy_recent studio silent_meter"
    by (simp add: copy_recent_def overflow_meter_def Let_def)
  then show ?thesis by (simp add: silent_copy_recent)
qed

lemma overflow_estimate: "estimate_delay studio overflow_meter = Inl Signed_Overflow"
  using estimate_from_snapshot_int_min [OF overflow_max_lag, of "replicate 2048 0" "replicate 2048 0"]
  by (simp add: estimate_delay_snapshot [OF overflow_copy_recent])


lemma snapshot_corr_no_fault:
  assumes "lag \<noteq> INT_MIN" and "nat \<bar>lag\<bar> \<le> frames" and "frames < 2 ^ 64"
    and "frames \<le> length ref" and "frames \<le> length tgt"
  shows "\<exists>v. snapshot_corr ref tgt frames lag = Inr v"
  unfolding snapshot_corr_def
  by (subst lag_corr_in_range [OF assms]) (simp split: prod.splits)

lemma foldl_lag_step_Inr:
  "\<forall>l\<in>set ls. \<exists>v. f l = Inr v \<Longrightarrow> \<exists>r. foldl (lag_step f) (Inr best) ls = Inr r"
proof (induction ls arbitrary: best)
  case Nil
  show ?case by (intro exI [of _ best]) simp
next
  case (Cons l ls)
  then obtain v where v: "f l = Inr v" by auto
  obtain bc bl n where b: "best = (bc, bl, n)" by (rule prod_cases3)
  have "\<exists>best'. lag_step f (Inr best) l = Inr best'"
    using v b by (cases v) auto
  then obtain best' where "lag_step f (Inr best) l = Inr best'" by blast
  with Cons.IH [of best'] Cons.prems show ?case by simp
qed

lemma estimate_delay_no_fault:
  assumes "copy_recent h dm = Some (ref, tgt, frames)"
    and "max_lag_samples (max_lag_ms dm) (sample_rate dm) frames \<noteq> INT_MIN"
  shows "\<exists>best. find_best_lag ref tgt frames
                  (max_lag_samples (max_lag_ms dm) (sample_rate dm) frames) = Inr best"
    and "\<exists>r. estimate_delay h dm = Inr r"
proof -
  let ?m = "max_lag_samples (max_lag_ms dm) (sample_rate dm) frames"
  note len = copy_recent_lengths [OF assms(1)]
  have "\<forall>l\<in>set [- ?m..?m]. \<exists>v. snapshot_corr ref tgt frames l = Inr v"
  proof
    fix l assume "l \<in> set [- ?m..?m]"
    then have "- ?m \<le> l" "l \<le> ?m" by simp_all
    from clamped_lag_in_frames [OF this] show "\<exists>v. snapshot_corr ref tgt frames l = Inr v"
      using len by (intro snapshot_corr_no_fault) simp_all
  qed
  from foldl_lag_step_Inr [OF this, of "(- 1, 0, 0)"] obtain r
    where "foldl (lag_step (snapshot_corr ref tgt frames)) (Inr (- 1, 0, 0)) [- ?m..?m] = Inr r"
    by blast
  then have best: "find_best_lag ref tgt frames ?m = Inr r"
    using len assms(2) max_lag_samples_not_max [of "max_lag_ms dm" "sample_rate dm" frames]
    by (simp add: find_best_lag_def)
  then show "\<exists>best. find_best_lag ref tgt frames ?m = Inr best" by blast
  obtain bc bl n where "r = (bc, bl, n)" by (rule prod_cases3)
  with best show "\<exists>r. estimate_delay h dm = Inr r"
    by (simp add: estimate_delay_snapshot [OF assms(1)] estimate_from_snapshot_def)
qed





text \<open>
  With a maximal lag of \<open>2^27\<close> ms at 48 kHz the lag bound is \<open>INT_MIN\<close> and the search
  overflows, silent though the snapshot is.
\<close>

lemma overflow_search_faults:
  "max_lag_samples (max_lag_ms overflow_meter) (sample_rate overflow_meter) 2048 = INT_MIN
   \<and> copy_recent studio overflow_meter = Some (replicate 2048 0, replicate 2048 0, 2048)
   \<and> estimate_delay studio overflow_meter = Inl Signed_Overflow"
  using overflow_max_lag overflow_copy_recent overflow_estimate by simp

section \<open>Measurement orchestrator\<close>

lemma self_corr_zero_lag:
  assumes "1024 \<le> frames" and "frames < 2 ^ 64" and "frames \<le> length y"
    and "1 / 10 ^ 8 \<le> (\<Sum>i\<leftarrow>[0..<frames]. (y ! i - snapshot_mean frames y) * (y ! i - snapshot_mean frames y))"
  shows "snapshot_corr y y frames 0 = Inr (Some 1)"
proof -
  let ?S = "\<Sum>i\<leftarrow>[0..<frames]. (y ! i - snapshot_mean frames y) * (y ! i - snapshot_mean frames y)"
  have pos: "0 < ?S" using assms(4) by (rule less_le_trans [rotated]) simp
  have "sqrt (?S * ?S) = ?S" using pos by simp
  moreover have "lag_corr y y frames (snapshot_mean frames y) (snapshot_mean frames y) 0 =
     (if frames - nat \<bar>0::int\<bar> < 1024 then Inr None
      else case lag_sums y y (snapshot_mean frames y) (snapshot_mean frames y)
                  (if 0 \<le> (0::int) then 0 else nat \<bar>0::int\<bar>)
                  (if 0 \<le> (0::int) then nat \<bar>0::int\<bar> else 0) (frames - nat \<bar>0::int\<bar>) of
             (sum_ab, sum_a2, sum_b2) \<Rightarrow>
               if sqrt (sum_a2 * sum_b2) < 1 / 10 ^ 8 then Inr None
               else Inr (Some (sum_ab / sqrt (sum_a2 * sum_b2))))"
    using assms(2,3) by (intro lag_corr_in_range) (simp_all add: INT_MIN_def)
  ultimately show ?thesis
    using assms(1,4) pos by (simp add: snapshot_corr_def lag_sums_def not_less)
qed

lemma sum_list_squares_ge:
  fixes g :: "nat \<Rightarrow> real"
  assumes "j < n" "0 < j"
  shows "(g j - g 0) * (g j - g 0) / 2 \<le> (\<Sum>i\<leftarrow>[0..<n]. (g i - mu) * (g i - mu))"
proof -
  have "(\<Sum>i\<leftarrow>[0..<n]. (g i - mu) * (g i - mu)) = (\<Sum>i\<in>{0..<n}. (g i - mu) * (g i - mu))"
    by (simp add: sum_list_sum_nth atLeast0LessThan)
  also have "\<dots> \<ge> (\<Sum>i\<in>{0, j}. (g i - mu) * (g i - mu))"
    using assms by (intro sum_mono2) auto
  also have "(\<Sum>i\<in>{0, j}. (g i - mu) * (g i - mu)) = (g 0 - mu) * (g 0 - mu) + (g j - mu) * (g j - mu)"
    using assms by simp
  finally have a: "(g 0 - mu) * (g 0 - mu) + (g j - mu) * (g j - mu)
                     \<le> (\<Sum>i\<leftarrow>[0..<n]. (g i - mu) * (g i - mu))" .
  define A where "A = (g j - g 0) * (g j - g 0)"
  define B where "B = ((g 0 - mu) + (g j - mu)) * ((g 0 - mu) + (g j - mu))"
  define C where "C = (g 0 - mu) * (g 0 - mu) + (g j - mu) * (g j - mu)"
  have "A + B = 2 * C"
    by (simp add: A_def B_def C_def algebra_simps)
  moreover have "0 \<le> B" by (simp add: B_def)
  ultimately have "A / 2 \<le> C" by linarith
  then have "(g j - g 0) * (g j - g 0) / 2
                     \<le> (g 0 - mu) * (g 0 - mu) + (g j - mu) * (g j - mu)"
    by (simp add: A_def C_def)
  with a show ?thesis by linarith
qed

lemma hann_weight_middle: "hann_weight 2049 1024 = 1"
proof -
  have "2 * pi * real 1024 / (real 2049 - 1) = pi" by simp
  then show ?thesis unfolding hann_weight_def by simp
qed

lemma ones_conditioned:
  "length (apply_hann_window (apply_pre_emphasis (replicate 2049 1))) = 2049"
  "apply_hann_window (apply_pre_emphasis (replicate 2049 1)) ! 0 = 0"
  "apply_hann_window (apply_pre_emphasis (replicate 2049 1)) ! 1024 = 5 / 100"
proof -
  let ?p = "apply_pre_emphasis (replicate 2049 1)"
  show "length (apply_hann_window ?p) = 2049"
    by (simp add: length_apply_hann_window length_apply_pre_emphasis)
  show "apply_hann_window ?p ! 0 = 0"
    by (rule conditioned_first_sample) simp
  have "?p ! 1024 = 1 - PRE_EMPHASIS_ALPHA * 1"
    using nth_apply_pre_emphasis [of 1024 "replicate 2049 1"] by simp
  moreover have "apply_hann_window ?p ! 1024 = ?p ! 1024 * hann_weight 2049 1024"
    using nth_apply_hann_window [of ?p 1024] by (simp add: length_apply_pre_emphasis)
  ultimately show "apply_hann_window ?p ! 1024 = 5 / 100"
    by (simp add: hann_weight_middle PRE_EMPHASIS_ALPHA_def)
qed

lemma ones_copy_recent:
  "copy_recent studio ones_meter
     = Some (apply_hann_window (apply_pre_emphasis (replicate 2049 1)),
             apply_hann_window (apply_pre_emphasis (replicate 2049 1)), 2049)"
proof -
  have raw: "copy_loop (replicate 2049 1 @ replicate 237951 (0::real)) 240000 0 2049
               = replicate 2049 1"
    using ring_holds_frames [OF ones_ring_holds order_refl] by simp
  have w: "ms_to_samples 1000 48000 = 48000"
    by (simp add: ms_to_samples_def)
  show ?thesis
    by (simp add: copy_recent_def ones_meter_def silent_meter_def studio_def w raw)
qed

lemma ones_self_corr:
  "snapshot_corr (apply_hann_window (apply_pre_emphasis (replicate 2049 1)))
     (apply_hann_window (apply_pre_emphasis (replicate 2049 1))) 2049 0 = Inr (Some 1)"
proof (rule self_corr_zero_lag)
  let ?y = "apply_hann_window (apply_pre_emphasis (replicate 2049 1))"
  show "(1024::nat) \<le> 2049" "(2049::nat) < 2 ^ 64" by simp_all
  show "2049 \<le> length ?y" by (simp add: ones_conditioned)
  have "(?y ! 1024 - ?y ! 0) * (?y ! 1024 - ?y ! 0) / 2
          \<le> (\<Sum>i\<leftarrow>[0..<2049]. (?y ! i - snapshot_mean 2049 ?y) * (?y ! i - snapshot_mean 2049 ?y))"
    by (rule sum_list_squares_ge) simp_all
  then show "1 / 10 ^ 8
          \<le> (\<Sum>i\<leftarrow>[0..<2049]. (?y ! i - snapshot_mean 2049 ?y) * (?y ! i - snapshot_mean 2049 ?y))"
    by (simp add: ones_conditioned)
qed

lemma ones_max_lag:
  "max_lag_samples (max_lag_ms ones_meter) (sample_rate ones_meter) 2049 = 1024"
  by (simp add: ones_meter_def silent_meter_def max_lag_samples_def ms_to_samples_def int_cast_def)

subsection \<open>A best correlation of exactly six tenths\<close>

lemma nth_gap_ref:
  "k < 1024 \<Longrightarrow> gap_ref ! k = (if k = 11 then - 1 else if k = 10 then 1 else 0)"
  by (simp add: gap_ref_def nth_list_update)

lemma nth_gap_tgt:
  "k < 1024 \<Longrightarrow> gap_tgt ! k
     = (if k = 11 then - 3 else if k = 10 then 3 else if k = 9 then - 4 else if k = 8 then 4 else 0)"
  by (simp add: gap_tgt_def nth_list_update)

lemma length_gap: "length gap_ref = 1024" "length gap_tgt = 1024"
  by (simp_all add: gap_ref_def gap_tgt_def)

lemma mean_gap: "snapshot_mean 1024 gap_ref = 0" "snapshot_mean 1024 gap_tgt = 0"
proof -
  have "sum_list gap_ref = (\<Sum>i\<leftarrow>[0..<1024]. gap_ref ! i)"
    using map_nth [of gap_ref] length_gap by simp
  also have "\<dots> = 0"
    by (subst sum_list_sparse) (simp_all add: nth_gap_ref)
  finally show "snapshot_mean 1024 gap_ref = 0"
    by (simp add: snapshot_mean_def length_gap)
  have "sum_list gap_tgt = (\<Sum>i\<leftarrow>[0..<1024]. gap_tgt ! i)"
    using map_nth [of gap_tgt] length_gap by simp
  also have "\<dots> = 0"
    by (subst sum_list_sparse) (simp_all add: nth_gap_tgt)
  finally show "snapshot_mean 1024 gap_tgt = 0"
    by (simp add: snapshot_mean_def length_gap)
qed

lemma gap_sums: "lag_sums gap_ref gap_tgt 0 0 0 0 1024 = (6, 2, 50)"
proof -
  have ab: "(\<Sum>i\<leftarrow>[0..<1024]. (gap_ref ! (0 + i) - 0) * (gap_tgt ! (0 + i) - 0)) = 6"
    by (subst sum_list_sparse) (simp_all add: nth_gap_ref nth_gap_tgt)
  have aa: "(\<Sum>i\<leftarrow>[0..<1024]. (gap_ref ! (0 + i) - 0) * (gap_ref ! (0 + i) - 0)) = 2"
    by (subst sum_list_sparse) (simp_all add: nth_gap_ref)
  have bb: "(\<Sum>i\<leftarrow>[0..<1024]. (gap_tgt ! (0 + i) - 0) * (gap_tgt ! (0 + i) - 0)) = 50"
    by (subst sum_list_sparse) (simp_all add: nth_gap_tgt)
  show ?thesis
    unfolding lag_sums_def by (simp only: ab aa bb)
qed

lemma gap_corr:
  "snapshot_corr gap_ref gap_tgt 1024 0 = Inr (Some (6 / 10))"
  "- 512 \<le> lag \<Longrightarrow> lag \<le> 512 \<Longrightarrow> lag \<noteq> 0 \<Longrightarrow> snapshot_corr gap_ref gap_tgt 1024 lag = Inr None"
proof -
  have ten: "sqrt (2 * 50) = 10"
    using real_sqrt_abs2 [of 10] by simp
  have r: "lag_corr gap_ref gap_tgt 1024 0 0 lag =
     (if 1024 - nat \<bar>lag\<bar> < 1024 then Inr None
      else case lag_sums gap_ref gap_tgt 0 0 (if 0 \<le> lag then 0 else nat \<bar>lag\<bar>)
                  (if 0 \<le> lag then nat \<bar>lag\<bar> else 0) (1024 - nat \<bar>lag\<bar>) of
             (sum_ab, sum_a2, sum_b2) \<Rightarrow>
               if sqrt (sum_a2 * sum_b2) < 1 / 10 ^ 8 then Inr None
               else Inr (Some (sum_ab / sqrt (sum_a2 * sum_b2))))"
    if "lag \<noteq> INT_MIN" "nat \<bar>lag\<bar> \<le> 1024" for lag
    using that by (intro lag_corr_in_range) (simp_all add: length_gap)
  show "snapshot_corr gap_ref gap_tgt 1024 0 = Inr (Some (6 / 10))"
    unfolding snapshot_corr_def mean_gap
    by (subst r) (simp_all add: INT_MIN_def gap_sums ten)
  show "snapshot_corr gap_ref gap_tgt 1024 lag = Inr None"
    if "- 512 \<le> lag" "lag \<le> 512" "lag \<noteq> 0"
    unfolding snapshot_corr_def mean_gap
    using that by (subst r) (auto simp: INT_MIN_def)
qed

lemma gap_max_lag: "max_lag_samples 500 48000 1024 = 512"
  by (simp add: max_lag_samples_def ms_to_samples_def int_cast_def)

lemma gap_search: "find_best_lag gap_ref gap_tgt 1024 512 = Inr (6 / 10, 0, 1)"
proof -
  let ?f = "snapshot_corr gap_ref gap_tgt 1024"
  have split: "[- 512..512::int] = [- 512..0 - 1] @ 0 # [0 + 1..512]"
    by (rule upto_split3) simp_all
  have before: "foldl (lag_step ?f) (Inr (- 1, 0, 0)) [- 512..0 - 1] = Inr (- 1, 0, 0)"
    by (rule foldl_lag_step_skipped) (auto intro: gap_corr(2))
  have after: "foldl (lag_step ?f) (Inr (6 / 10, 0, 1)) [0 + 1..512] = Inr (6 / 10, 0, 1)"
    by (rule foldl_lag_step_skipped) (auto intro: gap_corr(2))
  have step: "lag_step ?f (Inr (- 1, 0, 0)) 0 = Inr (6 / 10, 0, 1)"
    by (simp add: gap_corr(1))
  have "foldl (lag_step ?f) (Inr (- 1, 0, 0)) [- 512..512] = Inr (6 / 10, 0, 1)"
    by (simp only: split foldl_append foldl_Cons before step after)
  then show ?thesis
    by (simp add: find_best_lag_def length_gap INT_MIN_def INT_MAX_def)
qed

text \<open>
  C1, as the code has it. When a target is bound, both rings hold at least 1024 samples, the snapshot
  succeeds and the lag bound is not \<open>INT_MIN\<close>, the lag search returns a best correlation
  and a best lag, and \<open>perform_measure\<close> returns a result that is valid exactly when the
  best correlation is at least \<open>MIN_CORR_THRESHOLD\<close>, the \<open>float\<close> constant \<^verbatim>\<open>0.6f\<close>, whose
  value is \<open>5033165 / 8388608\<close>, a little above six tenths. The valid result carries
  \<open>delay_ms = best_lag * 1000 / sample_rate\<close> and the note that the target lags the
  reference for a positive delay, leads it for a negative one and is aligned with it
  for zero; below the threshold the result is invalid with the insufficient-correlation
  texts.
\<close>

theorem measure_valid_iff_confident:
  assumes "target dm \<noteq> None" and "1024 \<le> ref_count dm" and "1024 \<le> tgt_count dm"
    and "copy_recent h dm = Some (ref, tgt, frames)"
    and "max_lag_samples (max_lag_ms dm) (sample_rate dm) frames \<noteq> INT_MIN"
    and "name = (case target_name dm of Some n \<Rightarrow> n | None \<Rightarrow> ''<target>'')"
  shows "\<exists>best_corr best_lag lag_count delay_ms dm' valid.
      find_best_lag ref tgt frames (max_lag_samples (max_lag_ms dm) (sample_rate dm) frames)
        = Inr (best_corr, best_lag, lag_count)
    \<and> delay_ms = real_of_int best_lag * 1000 / real (unat (sample_rate dm))
    \<and> perform_measure h dm = Inr (dm', valid)
    \<and> (valid \<longleftrightarrow> 5033165 / 8388608 \<le> best_corr)
    \<and> last_delay_valid dm' = valid
    \<and> (5033165 / 8388608 \<le> best_corr \<longrightarrow>
          last_delay_ms dm' = delay_ms
          \<and> last_delay_text dm' = Some (Delay_Text delay_ms best_corr)
          \<and> last_notes dm' = Some (if delay_ms > 0 then Lags_Note name delay_ms
                                    else if delay_ms < 0 then Leads_Note name \<bar>delay_ms\<bar>
                                    else Aligned_Note name))
    \<and> (best_corr < 5033165 / 8388608 \<longrightarrow>
          last_delay_text dm'
            = Some (Text ''Insufficient correlation - check audio levels and similarity'')
          \<and> last_notes dm'
            = Some (Text ''Insufficient correlation; ensure both sources carry similar program audio.''))"
proof -
  let ?m = "max_lag_samples (max_lag_ms dm) (sample_rate dm) frames"
  from estimate_delay_no_fault(1) [OF assms(4,5)]
  obtain best where "find_best_lag ref tgt frames ?m = Inr best" by blast
  moreover obtain bc bl n where "best = (bc, bl, n)" by (rule prod_cases3)
  ultimately have best: "find_best_lag ref tgt frames ?m = Inr (bc, bl, n)" by simp
  have e: "estimate_delay h dm =
             Inr (if bc < MIN_CORR_THRESHOLD then None
                  else Some (real_of_int bl * 1000 / real (unat (sample_rate dm)), bc))"
    using estimate_from_snapshot_Inr [OF best] by (simp add: estimate_delay_snapshot [OF assms(4)])
  show ?thesis
  proof (cases "bc < MIN_CORR_THRESHOLD")
    case True
    then have "perform_measure h dm =
        Inr ((set_result h (Text ''Insufficient correlation - check audio levels and similarity'')
                (Text ''Insufficient correlation; ensure both sources carry similar program audio.'') dm)
               \<lparr>last_delay_valid := False\<rparr>, False)"
      using assms(1-3) e by (auto simp: perform_measure_def)
    with True best show ?thesis
      by (simp add: set_result_def MIN_CORR_THRESHOLD_def)
  next
    case False
    then have "perform_measure h dm =
        Inr ((set_result h (Delay_Text (real_of_int bl * 1000 / real (unat (sample_rate dm))) bc)
                (direction_note (target_name dm)
                   (real_of_int bl * 1000 / real (unat (sample_rate dm)))) dm)
               \<lparr>last_delay_ms := real_of_int bl * 1000 / real (unat (sample_rate dm)),
                 last_delay_valid := True\<rparr>, True)"
      using assms(1-3) e by (auto simp: perform_measure_def)
    with False best assms(6) show ?thesis
      by (simp add: set_result_def direction_note_def MIN_CORR_THRESHOLD_def not_less)
  qed
qed

theorem measure_valid_iff_confident_witness:
  "target silent_meter \<noteq> None \<and> 1024 \<le> ref_count silent_meter \<and> 1024 \<le> tgt_count silent_meter
   \<and> copy_recent studio silent_meter = Some (replicate 2048 0, replicate 2048 0, 2048)
   \<and> max_lag_samples (max_lag_ms silent_meter) (sample_rate silent_meter) 2048 \<noteq> INT_MIN
   \<and> find_best_lag (replicate 2048 0) (replicate 2048 0) 2048
        (max_lag_samples (max_lag_ms silent_meter) (sample_rate silent_meter) 2048)
       = Inr (- 1, 0, 0)
   \<and> \<not> isl (perform_measure studio silent_meter)
   \<and> \<not> snd (projr (perform_measure studio silent_meter))
   \<and> \<not> last_delay_valid (fst (projr (perform_measure studio silent_meter)))
   \<and> last_delay_text (fst (projr (perform_measure studio silent_meter)))
       = Some (Text ''Insufficient correlation - check audio levels and similarity'')
   \<and> target ones_meter \<noteq> None \<and> 1024 \<le> ref_count ones_meter \<and> 1024 \<le> tgt_count ones_meter
   \<and> copy_recent studio ones_meter
       = Some (apply_hann_window (apply_pre_emphasis (replicate 2049 1)),
               apply_hann_window (apply_pre_emphasis (replicate 2049 1)), 2049)
   \<and> max_lag_samples (max_lag_ms ones_meter) (sample_rate ones_meter) 2049 \<noteq> INT_MIN
   \<and> snapshot_corr (apply_hann_window (apply_pre_emphasis (replicate 2049 1)))
        (apply_hann_window (apply_pre_emphasis (replicate 2049 1))) 2049 0 = Inr (Some 1)
   \<and> \<not> isl (perform_measure studio ones_meter)
   \<and> snd (projr (perform_measure studio ones_meter))
   \<and> last_delay_valid (fst (projr (perform_measure studio ones_meter)))"
proof -
  have a: "target silent_meter \<noteq> None" "1024 \<le> ref_count silent_meter"
    "1024 \<le> tgt_count silent_meter"
    by (simp_all add: silent_meter_def)
  have m: "max_lag_samples (max_lag_ms silent_meter) (sample_rate silent_meter) 2048 = 1024"
    by (simp add: silent_meter_def silent_max_lag)
  have n: "max_lag_samples (max_lag_ms silent_meter) (sample_rate silent_meter) 2048 \<noteq> INT_MIN"
    by (simp add: m INT_MIN_def)
  have s: "find_best_lag (replicate 2048 0) (replicate 2048 0) 2048
        (max_lag_samples (max_lag_ms silent_meter) (sample_rate silent_meter) 2048)
       = Inr (- 1, 0, 0)"
    using silent_search by (simp add: m)
  let ?y = "apply_hann_window (apply_pre_emphasis (replicate 2049 1))"
  have a': "target ones_meter \<noteq> None" "1024 \<le> ref_count ones_meter"
    "1024 \<le> tgt_count ones_meter"
    by (simp_all add: ones_meter_def silent_meter_def)
  have n': "max_lag_samples (max_lag_ms ones_meter) (sample_rate ones_meter) 2049 \<noteq> INT_MIN"
    by (simp add: ones_max_lag INT_MIN_def)
  from measure_valid_iff_confident [OF a silent_copy_recent n refl]
  obtain dm' valid where silent: "perform_measure studio silent_meter = Inr (dm', valid)"
    "\<not> valid" "last_delay_valid dm' = valid"
    "last_delay_text dm'
       = Some (Text ''Insufficient correlation - check audio levels and similarity'')"
    unfolding s by auto
  from measure_valid_iff_confident [OF a' ones_copy_recent n' refl]
  obtain bc bl k dm'' valid' where ones: "find_best_lag ?y ?y 2049 1024 = Inr (bc, bl, k)"
    "perform_measure studio ones_meter = Inr (dm'', valid')"
    "valid' \<longleftrightarrow> 5033165 / 8388608 \<le> bc" "last_delay_valid dm'' = valid'"
    unfolding ones_max_lag by blast
  have "1 \<le> bc"
    by (rule find_best_lag_ge [OF _ _ ones_self_corr ones(1)]) simp_all
  then have "valid'" using ones(3) by simp
  then show ?thesis
    using a silent_copy_recent n s silent a' ones_copy_recent n' ones_self_corr ones(2,4)
    by simp
qed

text \<open>
  A best correlation of exactly six tenths is not enough. On two snapshots of 1024
  samples, whose only lag with an overlap of 1024 is \<open>0\<close>, with
  \<open>sum_ab = 6\<close>, \<open>sum_a2 = 2\<close> and \<open>sum_b2 = 50\<close>, the search returns the correlation
  \<open>6 / sqrt 100 = 6 / 10\<close>, which is at least \<open>0.6\<close> and below the threshold, so that
  the estimate fails.
\<close>

theorem measure_threshold_counterexample:
  "max_lag_samples 500 48000 1024 = 512
   \<and> find_best_lag gap_ref gap_tgt 1024 512 = Inr (6 / 10, 0, 1)
   \<and> (0.6 :: real) \<le> 6 / 10
   \<and> (6 / 10 :: real) < MIN_CORR_THRESHOLD
   \<and> estimate_from_snapshot 500 48000 gap_ref gap_tgt 1024 = Inr None"
proof -
  have "estimate_from_snapshot 500 48000 gap_ref gap_tgt 1024 = Inr None"
    using estimate_from_snapshot_Inr [of gap_ref gap_tgt 1024 500 48000 "6 / 10" 0 1] gap_search
    by (simp add: gap_max_lag MIN_CORR_THRESHOLD_def)
  then show ?thesis
    by (simp add: gap_max_lag gap_search MIN_CORR_THRESHOLD_def)
qed





section \<open>Configuration\<close>

lemma connect_target_config:
  "window_ms (connect_target h name dm) = window_ms dm"
  "max_lag_ms (connect_target h name dm) = max_lag_ms dm"
  by (simp_all add: connect_target_def Let_def split: option.splits)

lemma unat_word_of_int_small:
  assumes "0 \<le> v" "v < 2 ^ 32"
  shows "unat (word_of_int v :: 32 word) = nat v"
  using assms by (simp add: unat_eq_nat_uint uint_word_of_int take_bit_int_eq_self)

text \<open>
  C8, as the code has it. \<open>delay_meter_update\<close> stores the \<open>window_ms\<close> and \<open>max_lag_ms\<close>
  settings as they are, truncated to 32 bits and not clamped. The stored window lies
  within \<open>[200, 3000]\<close> and the stored maximal lag within \<open>[50, 1500]\<close> whenever the
  setting supplied does, as the sliders of the properties view ensure for the values
  they produce.
\<close>

theorem update_stores_settings:
  "window_ms (delay_meter_update h settings dm)
     = word_of_int (obs_data_get_int settings ''window_ms'')
   \<and> max_lag_ms (delay_meter_update h settings dm)
     = word_of_int (obs_data_get_int settings ''max_lag_ms'')
   \<and> (200 \<le> obs_data_get_int settings ''window_ms''
        \<and> obs_data_get_int settings ''window_ms'' \<le> 3000 \<longrightarrow>
        MIN_WINDOW_MS \<le> window_ms (delay_meter_update h settings dm)
        \<and> window_ms (delay_meter_update h settings dm) \<le> MAX_WINDOW_MS)
   \<and> (50 \<le> obs_data_get_int settings ''max_lag_ms''
        \<and> obs_data_get_int settings ''max_lag_ms'' \<le> 1500 \<longrightarrow>
        50 \<le> max_lag_ms (delay_meter_update h settings dm)
        \<and> max_lag_ms (delay_meter_update h settings dm) \<le> MAX_LAG_MS)"
proof (intro conjI impI)
  show w: "window_ms (delay_meter_update h settings dm)
     = word_of_int (obs_data_get_int settings ''window_ms'')"
    by (simp add: delay_meter_update_def connect_target_config)
  show l: "max_lag_ms (delay_meter_update h settings dm)
     = word_of_int (obs_data_get_int settings ''max_lag_ms'')"
    by (simp add: delay_meter_update_def connect_target_config)
  assume "200 \<le> obs_data_get_int settings ''window_ms''
        \<and> obs_data_get_int settings ''window_ms'' \<le> 3000"
  then have "unat (window_ms (delay_meter_update h settings dm))
               = nat (obs_data_get_int settings ''window_ms'')"
    unfolding w by (intro unat_word_of_int_small) simp_all
  then show "MIN_WINDOW_MS \<le> window_ms (delay_meter_update h settings dm)"
    and "window_ms (delay_meter_update h settings dm) \<le> MAX_WINDOW_MS"
    using \<open>200 \<le> obs_data_get_int settings ''window_ms''
        \<and> obs_data_get_int settings ''window_ms'' \<le> 3000\<close>
    by (simp_all add: word_le_nat_alt MIN_WINDOW_MS_def MAX_WINDOW_MS_def) linarith+
next
  have l: "max_lag_ms (delay_meter_update h settings dm)
     = word_of_int (obs_data_get_int settings ''max_lag_ms'')"
    by (simp add: delay_meter_update_def connect_target_config)
  assume a: "50 \<le> obs_data_get_int settings ''max_lag_ms''
        \<and> obs_data_get_int settings ''max_lag_ms'' \<le> 1500"
  then have "unat (max_lag_ms (delay_meter_update h settings dm))
               = nat (obs_data_get_int settings ''max_lag_ms'')"
    unfolding l by (intro unat_word_of_int_small) simp_all
  then show "50 \<le> max_lag_ms (delay_meter_update h settings dm)"
    and "max_lag_ms (delay_meter_update h settings dm) \<le> MAX_LAG_MS"
    using a by (simp_all add: word_le_nat_alt MAX_LAG_MS_def) linarith+
qed

theorem update_stores_settings_witness:
  "200 \<le> obs_data_get_int default_settings ''window_ms''
   \<and> obs_data_get_int default_settings ''window_ms'' \<le> 3000
   \<and> 50 \<le> obs_data_get_int default_settings ''max_lag_ms''
   \<and> obs_data_get_int default_settings ''max_lag_ms'' \<le> 1500
   \<and> window_ms (delay_meter_update studio default_settings silent_meter) = 1000
   \<and> max_lag_ms (delay_meter_update studio default_settings silent_meter) = 500"
  using update_stores_settings [of studio default_settings silent_meter]
  by (simp add: default_settings_def DEFAULT_WINDOW_MS_def)

text \<open>
  An update with a window of 5000 ms and a maximal lag of 10 ms stores both values,
  outside the bounds.
\<close>

theorem update_unclamped_counterexample:
  "window_ms (delay_meter_update studio wide_settings silent_meter) = 5000
   \<and> \<not> window_ms (delay_meter_update studio wide_settings silent_meter) \<le> MAX_WINDOW_MS
   \<and> max_lag_ms (delay_meter_update studio wide_settings silent_meter) = 10
   \<and> \<not> 50 \<le> max_lag_ms (delay_meter_update studio wide_settings silent_meter)"
  by (simp add: delay_meter_update_def connect_target_config wide_settings_def MAX_WINDOW_MS_def)

end
